theory Spec2Isabelle
  imports Main "HOL-Library.Sublist" "HOL-Library.Word" "HOL-Library.AList"
begin

section \<open>Strings as the TypeScript code uses them\<close>

text \<open>
  \<^verbatim>\<open>s.split(c)\<close> for a one-character separator: the pieces between the separators, in
  order. The result is never empty: \<^verbatim>\<open>"".split(":")\<close> is \<^verbatim>\<open>[""]\<close>.
\<close>

fun split_str :: "char \<Rightarrow> string \<Rightarrow> string list" where
  "split_str sep [] = [[]]"
| "split_str sep (c # cs) =
     (if c = sep then [] # split_str sep cs
      else (case split_str sep cs of
              [] \<Rightarrow> [[c]]
            | w # ws \<Rightarrow> (c # w) # ws))"

text \<open>\<^verbatim>\<open>hay.includes(needle)\<close>: the needle occurs as a contiguous run of the haystack.\<close>

fun includes_str :: "string \<Rightarrow> string \<Rightarrow> bool" where
  "includes_str [] needle = (needle = [])"
| "includes_str (c # cs) needle = (prefix needle (c # cs) \<or> includes_str cs needle)"

section \<open>lib/auth/ghl-auth.ts: sessions and the permission check\<close>

datatype UserRole = admin | editor | user | viewer

datatype UserSource = team_member | contact

record AuthSession =
  userId :: string
  email :: string
  role :: UserRole
  source :: UserSource
  permissions :: "string list"
  expiresAt :: string

text \<open>
  \<^verbatim>\<open>const [category] = permission.split(':')\<close>: the first piece of the split. An empty
  array would bind \<^verbatim>\<open>undefined\<close>, which the template literal prints as the word.
\<close>

definition permission_category :: "string \<Rightarrow> string" where
  "permission_category permission =
     (case split_str CHR '':'' permission of [] \<Rightarrow> ''undefined'' | c # _ \<Rightarrow> c)"

definition hasPermission :: "'a AuthSession_scheme \<Rightarrow> string \<Rightarrow> bool" where
  "hasPermission u permission =
     (if List.member (permissions u) ''admin:*'' then True
      else if List.member (permissions u) permission then True
      else if List.member (permissions u) (permission_category permission @ '':*'') then True
      else False)"

text \<open>
  The matching rule in the words of the specification (section 4.2), to compare with the
  code: exact match, or the global wildcard \<^verbatim>\<open>*\<close>, or \<^verbatim>\<open>category:*\<close> for the prefix of
  the required pattern before its first colon.
\<close>

definition isAllowed_spec :: "string list \<Rightarrow> string \<Rightarrow> bool" where
  "isAllowed_spec granted required =
     (required \<in> set granted \<or> ''*'' \<in> set granted \<or>
      (takeWhile (\<lambda>c. c \<noteq> CHR '':'') required @ '':*'') \<in> set granted)"

definition session_with :: "string list \<Rightarrow> AuthSession" where
  "session_with ps =
     \<lparr>userId = ''u1'', email = ''u1@example.com'', role = user, source = contact,
      permissions = ps, expiresAt = ''2030-01-01T00:00:00.000Z''\<rparr>"

section \<open>SKILLS-IMPORT-EXPORT.md: risk assessment\<close>

datatype RiskLevel = Low | Medium | High | Critical

definition highRisk :: "string list" where
  "highRisk = [''database:delete'', ''files:delete'', ''exec:server'', ''env:write'']"

definition criticalRisk :: "string list" where
  "criticalRisk = [''*'']"

definition calculateRiskLevel :: "string list \<Rightarrow> RiskLevel" where
  "calculateRiskLevel ps =
     (if list_ex (\<lambda>p. List.member criticalRisk p) ps then Critical
      else if list_ex (\<lambda>p. List.member highRisk p) ps then High
      else if list_ex (\<lambda>p. includes_str p ''write'') ps then Medium
      else Low)"








section \<open>lib/auth/ghl-auth.ts: password hashing\<close>

text \<open>
  The key derivation
  \<^verbatim>\<open>crypto.pbkdf2Sync(password, salt, 100000, 64, 'sha512').toString('hex')\<close>
  is a library primitive: the functions below take it as the parameter \<open>pbkdf2Sync\<close>
  (password, salt, iterations, key length, digest name to hex string).
  \<^verbatim>\<open>crypto.randomBytes(16)\<close> is the other input from outside: the bytes drawn, \<open>rnd\<close>.
\<close>

type_synonym kdf = "string \<Rightarrow> string \<Rightarrow> nat \<Rightarrow> nat \<Rightarrow> string \<Rightarrow> string"

definition hex_digit :: "nat \<Rightarrow> char" where
  "hex_digit n = ''0123456789abcdef'' ! (n mod 16)"

text \<open>\<^verbatim>\<open>buffer.toString('hex')\<close>: two lower-case hexadecimal digits for each byte.\<close>

fun toString_hex :: "8 word list \<Rightarrow> string" where
  "toString_hex [] = []"
| "toString_hex (b # bs) =
     hex_digit (unat b div 16) # hex_digit (unat b mod 16) # toString_hex bs"

record PasswordHash =
  hash :: string
  salt :: string

text \<open>
  \<^verbatim>\<open>salt || crypto.randomBytes(16).toString('hex')\<close>: the optional parameter is absent
  (\<open>None\<close>) or a string, and the empty string is falsy, so it is replaced as well.
\<close>

definition hashPassword :: "kdf \<Rightarrow> 8 word list \<Rightarrow> string \<Rightarrow> string option \<Rightarrow> PasswordHash" where
  "hashPassword pbkdf2Sync rnd password salt_arg =
     (let actualSalt = (case salt_arg of
                          None \<Rightarrow> toString_hex rnd
                        | Some s \<Rightarrow> if s \<noteq> [] then s else toString_hex rnd);
          h = pbkdf2Sync password actualSalt 100000 64 ''sha512''
      in \<lparr>hash = h, salt = actualSalt\<rparr>)"

definition verifyPassword :: "kdf \<Rightarrow> 8 word list \<Rightarrow> string \<Rightarrow> string \<Rightarrow> string \<Rightarrow> bool" where
  "verifyPassword pbkdf2Sync rnd password storedHash salt_arg =
     (hash (hashPassword pbkdf2Sync rnd password (Some salt_arg)) = storedHash)"

text \<open>A stand-in for the key derivation, for evaluating the functions on concrete inputs.\<close>

definition example_kdf :: kdf where
  "example_kdf password salt_arg iterations keylen digest = password @ ''$'' @ salt_arg"

section \<open>JSON values\<close>

text \<open>
  The values of \<^verbatim>\<open>any\<close> and \<^verbatim>\<open>Record<string, any>\<close>: JSON, with \<open>JUndefined\<close> for
  JavaScript's \<^verbatim>\<open>undefined\<close>. An object is an association list in insertion order.
\<close>

datatype json =
    JUndefined
  | JNull
  | JBool bool
  | JNum int
  | JStr string
  | JArr "json list"
  | JObj "(string \<times> json) list"

section \<open>lib/mcp/registry.ts (unnamed/part_009): the MCP registry\<close>

datatype ConnectionType = http | stdio | sse

datatype AuthType = api_key | oauth | token | pit | none

record MCPTool =
  tool_name :: string
  tool_description :: string
  inputSchema :: json
  requiresAuth :: bool

record MCPServerConfig =
  server_id :: string
  server_slug :: string
  server_name :: string
  server_description :: string
  server_category :: string
  endpoint :: string
  connectionType :: ConnectionType
  authType :: AuthType
  tools :: "MCPTool list"
  isBuiltIn :: bool
  isEnabled :: bool

text \<open>
  The registry object (\<open>servers\<close>, the \<^verbatim>\<open>Map\<close> from slug to configuration, and
  \<open>initialized\<close>) together with what it writes to: the rows of the \<^verbatim>\<open>mcp_servers\<close> table
  and the delete statements issued against it, by slug, newest first.
\<close>

record MCPRegistry =
  servers :: "string \<rightharpoonup> MCPServerConfig"
  initialized :: bool
  mcp_servers_table :: "MCPServerConfig list"
  deletes_issued :: "string list"

datatype 'a outcome = Returned 'a | Thrown string

definition getServer :: "MCPRegistry \<Rightarrow> string \<Rightarrow> MCPServerConfig option" where
  "getServer reg slug = servers reg slug"

text \<open>
  \<^verbatim>\<open>server?.isBuiltIn\<close> is falsy when the slug is not registered; the method then goes on
  to the delete statement, whose outcome it does not look at, and to
  \<^verbatim>\<open>this.servers.delete(slug)\<close>.
\<close>

definition unregisterServer :: "string \<Rightarrow> MCPRegistry \<Rightarrow> unit outcome \<times> MCPRegistry" where
  "unregisterServer slug reg =
     (if (case servers reg slug of None \<Rightarrow> False | Some server \<Rightarrow> isBuiltIn server)
      then (Thrown ''Cannot unregister built-in server'', reg)
      else (Returned (),
            reg\<lparr>mcp_servers_table := filter (\<lambda>row. server_slug row \<noteq> slug) (mcp_servers_table reg),
                deletes_issued := slug # deletes_issued reg,
                servers := (servers reg)(slug := None)\<rparr>))"

definition example_tool :: MCPTool where
  "example_tool =
     \<lparr>tool_name = ''list_customers'', tool_description = ''List Stripe customers'',
      inputSchema = JObj [(''type'', JStr ''object''),
                          (''properties'', JObj [(''limit'', JObj [(''type'', JStr ''number'')])])],
      requiresAuth = True\<rparr>"

definition example_server :: "bool \<Rightarrow> MCPServerConfig" where
  "example_server builtin =
     \<lparr>server_id = ''stripe'', server_slug = ''stripe'', server_name = ''Stripe'',
      server_description = ''Payment processing - customers, products, subscriptions, invoices'',
      server_category = ''Finance & Payments'', endpoint = ''https://api.stripe.com/v1'',
      connectionType = http, authType = api_key, tools = [example_tool],
      isBuiltIn = builtin, isEnabled = True\<rparr>"

definition example_registry :: "bool \<Rightarrow> MCPRegistry" where
  "example_registry builtin =
     \<lparr>servers = [''stripe'' \<mapsto> example_server builtin], initialized = True,
      mcp_servers_table = [], deletes_issued = []\<rparr>"

section \<open>app/api/mcp/[server]/[tool]/route.ts: direct tool execution\<close>

record SkillManifest =
  manifest_name :: string
  manifest_slug :: string
  manifest_version :: string
  manifest_permissions :: "string list"
  onboarding :: "json list"

record ExecutionContext =
  installationId :: string
  ctx_userId :: string
  skillId :: string
  skillSlug :: string
  config :: "(string \<times> json) list"
  environment :: "string \<rightharpoonup> string"
  ctx_permissions :: "string list"
  manifest :: SkillManifest
  variables :: "(string \<times> json) list"
  input :: "(string \<times> json) list"
  onboardingData :: "(string \<times> json) list"

text \<open>
  \<open>process_env\<close> is \<^verbatim>\<open>process.env\<close>; the spread \<^verbatim>\<open>{...process.env, ...environment}\<close> lets the
  caller's entries override it.
\<close>

definition createMinimalContext ::
  "(string \<rightharpoonup> string) \<Rightarrow> string \<Rightarrow> (string \<rightharpoonup> string) \<Rightarrow> ExecutionContext" where
  "createMinimalContext process_env uid env =
     \<lparr>installationId = ''api-call'',
      ctx_userId = uid,
      skillId = ''direct-mcp-call'',
      skillSlug = ''direct-mcp-call'',
      config = [],
      environment = process_env ++ env,
      ctx_permissions = [''mcp:*''],
      manifest = \<lparr>manifest_name = ''Direct MCP Call'', manifest_slug = ''direct-mcp-call'',
                  manifest_version = ''1.0.0'', manifest_permissions = [''mcp:*''],
                  onboarding = []\<rparr>,
      variables = [],
      input = [],
      onboardingData = []\<rparr>"

record MCPActionConfig =
  action_type :: string
  action_server :: string
  action_tool :: string
  action_params :: json

record MCPCallResult =
  success :: bool
  data :: json
  error :: json

text \<open>
  The handler \<^verbatim>\<open>mcpHandler\<close> lives in another module: a parameter here. It resolves to a
  result, or rejects with an \<^verbatim>\<open>Error\<close> (its message) or with some other value.
\<close>

datatype rejection = ErrorObject string | OtherValue

type_synonym mcp_handler = "ExecutionContext \<Rightarrow> MCPActionConfig \<Rightarrow> rejection + MCPCallResult"

text \<open>
  The request body after \<^verbatim>\<open>request.json().catch(() => ({}))\<close> and the destructuring with
  defaults: each of \<^verbatim>\<open>params\<close> and \<^verbatim>\<open>environment\<close> is present or not.
\<close>

record RequestBody =
  body_params :: "json option"
  body_environment :: "(string \<rightharpoonup> string) option"

text \<open>
  A body that parses to \<^verbatim>\<open>null\<close> is the one value that cannot be destructured: the
  statement throws a \<^verbatim>\<open>TypeError\<close>, whose message is the engine's and is carried by the
  constructor. Every other body is read through its two properties.
\<close>

datatype request_body = NullBody string | Body RequestBody

record Response =
  status :: nat
  body :: "(string \<times> json) list"

record CallLogRow =
  log_user_id :: string
  log_server_slug :: string
  log_tool_name :: string
  log_params :: json
  log_success :: bool
  log_response :: json
  log_error_message :: json
  log_duration_ms :: int

text \<open>
  What one request does: the response sent, the calls made to the handler (context and
  action configuration) and the rows inserted into \<^verbatim>\<open>mcp_call_logs\<close>. The registry is
  taken as initialised; \<open>startTime\<close> and \<open>endTime\<close> are the two readings of the clock.
\<close>

record PostEffects =
  response :: Response
  handler_calls :: "(ExecutionContext \<times> MCPActionConfig) list"
  rows_inserted :: "CallLogRow list"

definition without_undefined :: "(string \<times> json) list \<Rightarrow> (string \<times> json) list" where
  "without_undefined kvs = filter (\<lambda>kv. snd kv \<noteq> JUndefined) kvs"

text \<open>\<^verbatim>\<open>NextResponse.json(obj, { status })\<close>: serialising drops the undefined fields.\<close>

definition NextResponse_json :: "(string \<times> json) list \<Rightarrow> nat \<Rightarrow> Response" where
  "NextResponse_json obj st = \<lparr>status = st, body = without_undefined obj\<rparr>"

definition POST ::
  "MCPRegistry \<Rightarrow> mcp_handler \<Rightarrow> (string \<rightharpoonup> string) \<Rightarrow> int \<Rightarrow> int \<Rightarrow>
   string \<Rightarrow> string \<Rightarrow> request_body \<Rightarrow> PostEffects" where
  "POST reg mcpHandler process_env startTime endTime serverSlug toolName req =
     (case getServer reg serverSlug of
        None \<Rightarrow>
          \<lparr>response = NextResponse_json
             [(''success'', JBool False), (''error'', JStr (''Server not found: '' @ serverSlug))] 404,
           handler_calls = [], rows_inserted = []\<rparr>
      | Some server \<Rightarrow>
          if \<not> isEnabled server then
            \<lparr>response = NextResponse_json
               [(''success'', JBool False), (''error'', JStr (''Server is disabled: '' @ serverSlug))] 400,
             handler_calls = [], rows_inserted = []\<rparr>
          else
            (case find (\<lambda>t. tool_name t = toolName) (tools server) of
               None \<Rightarrow>
                 \<lparr>response = NextResponse_json
                    [(''success'', JBool False), (''error'', JStr (''Tool not found: '' @ toolName))] 404,
                  handler_calls = [], rows_inserted = []\<rparr>
             | Some tool \<Rightarrow>
                 (case req of
                    NullBody type_error \<Rightarrow>
                      \<lparr>response = NextResponse_json
                         [(''success'', JBool False), (''error'', JStr type_error)] 500,
                       handler_calls = [], rows_inserted = []\<rparr>
                  | Body b \<Rightarrow>
                 (let toolParams = (case body_params b of None \<Rightarrow> JObj [] | Some p \<Rightarrow> p);
                      env = (case body_environment b of None \<Rightarrow> Map.empty | Some e \<Rightarrow> e);
                      uid = ''api-user'';
                      context = createMinimalContext process_env uid env;
                      actionConfig = \<lparr>action_type = ''mcp:call'', action_server = serverSlug,
                                      action_tool = toolName, action_params = toolParams\<rparr>
                  in case mcpHandler context actionConfig of
                       Inl thrown \<Rightarrow>
                         \<lparr>response = NextResponse_json
                            [(''success'', JBool False),
                             (''error'', JStr (case thrown of
                                                 ErrorObject msg \<Rightarrow> msg
                                               | OtherValue \<Rightarrow> ''Failed to execute MCP tool''))] 500,
                          handler_calls = [(context, actionConfig)], rows_inserted = []\<rparr>
                     | Inr result \<Rightarrow>
                         (let duration = endTime - startTime;
                              row = \<lparr>log_user_id = uid, log_server_slug = serverSlug,
                                     log_tool_name = toolName, log_params = toolParams,
                                     log_success = success result, log_response = data result,
                                     log_error_message = error result, log_duration_ms = duration\<rparr>
                          in if \<not> success result then
                               \<lparr>response = NextResponse_json
                                  [(''success'', JBool False), (''error'', error result),
                                   (''server'', JStr serverSlug), (''tool'', JStr toolName),
                                   (''duration'', JNum duration)] 400,
                                handler_calls = [(context, actionConfig)], rows_inserted = [row]\<rparr>
                             else
                               \<lparr>response = NextResponse_json
                                  [(''success'', JBool True), (''data'', data result),
                                   (''server'', JStr serverSlug), (''tool'', JStr toolName),
                                   (''duration'', JNum duration)] 200,
                                handler_calls = [(context, actionConfig)], rows_inserted = [row]\<rparr>)))))"

definition example_handler :: mcp_handler where
  "example_handler context cfg =
     Inr \<lparr>success = True, data = JObj [(''tool'', JStr (action_tool cfg))], error = JUndefined\<rparr>"


section \<open>supabase/migrations/001_skills_system.sql: the action log, and its rollback\<close>

text \<open>
  A row of the table \<^verbatim>\<open>skill_logs\<close>. The timestamps are numbers; \<^verbatim>\<open>reverted_at\<close> may be
  null.
\<close>

record skill_log =
  log_id :: string
  installation_id :: string
  log_action :: string
  log_target :: string
  before_state :: json
  after_state :: json
  metadata :: json
  reversible :: bool
  reverted :: bool
  reverted_at :: "int option"
  created_at :: int

text \<open>
  Inserting a row that names neither \<^verbatim>\<open>reverted\<close> nor \<^verbatim>\<open>reverted_at\<close>: the column defaults
  (\<^verbatim>\<open>reverted BOOLEAN DEFAULT false\<close>, no default for \<^verbatim>\<open>reverted_at\<close>).
\<close>

definition new_skill_log ::
  "string \<Rightarrow> string \<Rightarrow> string \<Rightarrow> string \<Rightarrow> json \<Rightarrow> json \<Rightarrow> json \<Rightarrow> bool \<Rightarrow> int \<Rightarrow> skill_log" where
  "new_skill_log lid inst act tgt before after meta can_revert now =
     \<lparr>log_id = lid, installation_id = inst, log_action = act, log_target = tgt,
      before_state = before, after_state = after, metadata = meta,
      reversible = can_revert, reverted = False, reverted_at = None, created_at = now\<rparr>"

text \<open>
  The invariant of an audit log entry in the specification's data model (section 3): an
  entry with \<open>reversible = false\<close> is never reverted.
\<close>

definition entry_invariant :: "skill_log \<Rightarrow> bool" where
  "entry_invariant e = (if reverted e then reversible e else True)"

datatype RevertResult =
    Reverted
  | NotReversible
  | AlreadyReverted
  | InverseFailed string
  | NoSuchEntry

text \<open>
  The state rollback works on: the log entries by id, and the inverse operations invoked
  so far (action, target and the state restored), newest first.
\<close>

record audit_state =
  logs :: "string \<rightharpoonup> skill_log"
  inverses_invoked :: "(string \<times> string \<times> json) list"

text \<open>
  Modelled from the spec: \<^verbatim>\<open>revert(logId)\<close> of lib/skills/rollback.ts, which is not among
  the sources. Section 4.7: it loads the entry, fails with \<open>NotReversible\<close> if
  \<open>reversible = false\<close>, fails with \<open>AlreadyReverted\<close> if \<open>reverted = true\<close>, otherwise
  invokes the inverse of the original action with \<open>beforeState\<close> as the target state,
  marks \<open>reverted = true\<close> and stamps \<open>revertedAt\<close>. The inverse belongs to the action's
  handler: the parameter \<open>undo\<close> says whether it fails (section 7: a handler-side inverse
  failure is a typed result), and a failed inverse marks nothing. The specification does
  not say what an unknown id gives; here it is \<open>NoSuchEntry\<close>.
\<close>

definition revert ::
  "(string \<Rightarrow> string \<Rightarrow> json \<Rightarrow> string option) \<Rightarrow> int \<Rightarrow> string \<Rightarrow> audit_state
   \<Rightarrow> RevertResult \<times> audit_state" where
  "revert undo now logId st =
     (case logs st logId of
        None \<Rightarrow> (NoSuchEntry, st)
      | Some e \<Rightarrow>
          if \<not> reversible e then (NotReversible, st)
          else if reverted e then (AlreadyReverted, st)
          else
            (let st' = st\<lparr>inverses_invoked :=
                         (log_action e, log_target e, before_state e) # inverses_invoked st\<rparr>
             in case undo (log_action e) (log_target e) (before_state e) of
                  Some failure \<Rightarrow> (InverseFailed failure, st')
                | None \<Rightarrow>
                    (Reverted,
                     st'\<lparr>logs := (logs st)(logId \<mapsto> e\<lparr>reverted := True, reverted_at := Some now\<rparr>)\<rparr>)))"

text \<open>Calling \<open>revert\<close> on the same entry once for each of the given times.\<close>

fun revert_each :: "(string \<Rightarrow> string \<Rightarrow> json \<Rightarrow> string option) \<Rightarrow> int list \<Rightarrow> string \<Rightarrow> audit_state
   \<Rightarrow> RevertResult list \<times> audit_state" where
  "revert_each undo [] logId st = ([], st)"
| "revert_each undo (now # later) logId st =
     (let (r, st') = revert undo now logId st;
          (rs, st'') = revert_each undo later logId st'
      in (r # rs, st''))"

definition example_log :: "bool \<Rightarrow> skill_log" where
  "example_log can_revert =
     new_skill_log ''log-1'' ''inst-1'' ''file:create'' ''/pages/about.tsx''
       JNull (JStr ''export default function About() {}'') (JObj []) can_revert 1700000000"

definition example_audit_state :: "bool \<Rightarrow> audit_state" where
  "example_audit_state can_revert =
     \<lparr>logs = [''log-1'' \<mapsto> example_log can_revert], inverses_invoked = []\<rparr>"

section \<open>The template resolver (specification, section 4.3)\<close>

text \<open>
  Modelled from the spec: the template resolver of lib/skills/ignition/context.ts, which
  is not among the sources. Section 4.3: the grammar is \<^verbatim>\<open>{{\<close> + dotted path + \<^verbatim>\<open>}}\<close>; a
  template that is exactly one expression resolves to the value looked up, with its type;
  a template that mixes literal text and expressions resolves to a string with each
  expression string-interpolated; an unknown path yields an undefined value, which
  interpolates as the empty string.
\<close>

datatype segment = Literal string | Expression string

text \<open>
  Modelled from the spec: the closing of an expression. The text up to the first \<^verbatim>\<open>}}\<close>,
  and the text after it.
\<close>

fun split_close :: "string \<Rightarrow> (string \<times> string) option" where
  "split_close [] = None"
| "split_close [c] = None"
| "split_close (c # d # cs) =
     (if c = CHR ''}'' \<and> d = CHR ''}'' then Some ([], cs)
      else map_option (\<lambda>(p, r). (c # p, r)) (split_close (d # cs)))"

fun add_char :: "char \<Rightarrow> segment list \<Rightarrow> segment list" where
  "add_char c (Literal l # segs) = Literal (c # l) # segs"
| "add_char c segs = Literal [c] # segs"

lemma split_close_shorter: "split_close s = Some (p, r) \<Longrightarrow> length r < length s"
proof (induction s arbitrary: p r rule: split_close.induct)
  case (3 c d cs)
  show ?case
  proof (cases "c = CHR ''}'' \<and> d = CHR ''}''")
    case True
    with 3 show ?thesis by simp
  next
    case False
    with 3(2) obtain p' where "split_close (d # cs) = Some (p', r)"
      by (auto split: if_splits)
    with 3(1) [OF False] have "length r < length (d # cs)" by blast
    then show ?thesis by simp
  qed
qed simp_all

text \<open>
  Modelled from the spec: the grammar of section 4.3. An opening \<^verbatim>\<open>{{\<close> with a closing
  \<^verbatim>\<open>}}\<close> after it is an expression; every other character is literal text, and
  neighbouring literal characters form one segment.
\<close>

function parse_template :: "string \<Rightarrow> segment list" where
  "parse_template [] = []"
| "parse_template (c # cs) =
     (case (if prefix ''{{'' (c # cs) then split_close (tl cs) else None) of
        Some (path, rest) \<Rightarrow> Expression path # parse_template rest
      | None \<Rightarrow> add_char c (parse_template cs))"
  by pat_completeness auto
termination
proof (relation "measure length")
  fix c cs x path rest
  assume "(if prefix ''{{'' (c # cs) then split_close (tl cs) else None) = Some x"
    and "(path, rest) = x"
  then have "split_close (tl cs) = Some (path, rest)"
    by (auto split: if_splits)
  then have "length rest < length (tl cs)" by (rule split_close_shorter)
  then show "(rest, c # cs) \<in> measure length" by simp
qed simp_all

text \<open>
  Modelled from the spec: a dotted path. Following the remaining segments of the path
  into nested objects; an unknown segment yields an undefined value.
\<close>

fun descend :: "json \<Rightarrow> string list \<Rightarrow> json" where
  "descend v [] = v"
| "descend v (k # ks) =
     (case v of
        JObj kvs \<Rightarrow> (case map_of kvs k of None \<Rightarrow> JUndefined | Some v' \<Rightarrow> descend v' ks)
      | _ \<Rightarrow> JUndefined)"

text \<open>
  Modelled from the spec: the lookup order of section 4.3. The path resolves against
  \<open>variables\<close>, then \<open>config\<close>, then \<open>input\<close>, then
  \<open>onboardingData\<close>: the first of them that has the path's first segment wins, and there
  is no merging across them.
\<close>

definition lookup_path :: "ExecutionContext \<Rightarrow> string \<Rightarrow> json" where
  "lookup_path ctx path =
     (case split_str CHR ''.'' path of
        [] \<Rightarrow> JUndefined
      | k # ks \<Rightarrow>
          (case map_of (variables ctx) k of
             Some v \<Rightarrow> descend v ks
           | None \<Rightarrow>
          (case map_of (config ctx) k of
             Some v \<Rightarrow> descend v ks
           | None \<Rightarrow>
          (case map_of (input ctx) k of
             Some v \<Rightarrow> descend v ks
           | None \<Rightarrow>
          (case map_of (onboardingData ctx) k of
             Some v \<Rightarrow> descend v ks
           | None \<Rightarrow> JUndefined)))))"

text \<open>
  Modelled from the spec: string interpolation of a value (section 4.3). A string is
  itself and an undefined value is empty.
  The specification leaves the printing of the other values open: the parameter
  \<open>print_value\<close>.
\<close>

definition interpolate :: "(json \<Rightarrow> string) \<Rightarrow> json \<Rightarrow> string" where
  "interpolate print_value v =
     (case v of JStr s \<Rightarrow> s | JUndefined \<Rightarrow> [] | _ \<Rightarrow> print_value v)"

fun render :: "(json \<Rightarrow> string) \<Rightarrow> ExecutionContext \<Rightarrow> segment \<Rightarrow> string" where
  "render print_value ctx (Literal l) = l"
| "render print_value ctx (Expression p) = interpolate print_value (lookup_path ctx p)"

text \<open>
  Modelled from the spec: \<^verbatim>\<open>resolve(template, scope)\<close> of section 4.3. A template that is
  exactly one expression keeps the type of the value; any other template becomes a
  string.
\<close>

definition resolve :: "(json \<Rightarrow> string) \<Rightarrow> ExecutionContext \<Rightarrow> string \<Rightarrow> json" where
  "resolve print_value ctx template =
     (case parse_template template of
        [Expression p] \<Rightarrow> lookup_path ctx p
      | segs \<Rightarrow> JStr (concat (map (render print_value ctx) segs)))"

text \<open>
  Modelled from the spec: truthiness of a resolved condition (section 4.3). A resolved
  value is truthy unless it is in the falsy set: the empty string, the string
  \<^verbatim>\<open>false\<close>, zero, null, undefined, and the boolean false.
\<close>

definition truthy :: "json \<Rightarrow> bool" where
  "truthy v =
     (case v of
        JUndefined \<Rightarrow> False
      | JNull \<Rightarrow> False
      | JBool b \<Rightarrow> b
      | JNum n \<Rightarrow> n \<noteq> 0
      | JStr s \<Rightarrow> s \<noteq> [] \<and> s \<noteq> ''false''
      | _ \<Rightarrow> True)"

text \<open>
  The text of a template made of the given segments, and the segment lists that are the
  parse of their own text: literals are non-empty, have no opening brace and do not
  follow one another; paths have no closing brace.
\<close>

fun segment_text :: "segment \<Rightarrow> string" where
  "segment_text (Literal l) = l"
| "segment_text (Expression p) = ''{{'' @ p @ ''}}''"

definition template_text :: "segment list \<Rightarrow> string" where
  "template_text segs = concat (map segment_text segs)"

fun starts_with_literal :: "segment list \<Rightarrow> bool" where
  "starts_with_literal (Literal l # segs) = True"
| "starts_with_literal segs = False"

fun plain_segments :: "segment list \<Rightarrow> bool" where
  "plain_segments [] = True"
| "plain_segments (Literal l # segs) =
     (l \<noteq> [] \<and> CHR ''{'' \<notin> set l \<and> \<not> starts_with_literal segs \<and> plain_segments segs)"
| "plain_segments (Expression p # segs) = (CHR ''}'' \<notin> set p \<and> plain_segments segs)"

fun single_expression :: "segment list \<Rightarrow> bool" where
  "single_expression [Expression p] = True"
| "single_expression segs = False"

definition example_context :: ExecutionContext where
  "example_context =
     (createMinimalContext Map.empty ''u1'' Map.empty)
       \<lparr>variables := [(''contact'', JObj [(''id'', JStr ''c-42''), (''vip'', JBool True)])],
        config := [(''greeting'', JStr ''Hello'')]\<rparr>"

definition example_print :: "json \<Rightarrow> string" where
  "example_print v = (case v of JBool True \<Rightarrow> ''true'' | JBool False \<Rightarrow> ''false'' | _ \<Rightarrow> ''?'')"

section \<open>Manifests with actions, and their validation (specification, sections 3 and 4.1)\<close>

datatype OnError = stop | continue | retry

text \<open>
  Modelled from the spec: \<^verbatim>\<open>ActionSpec\<close> of section 3, an action of a manifest.
  \<open>action_kind\<close> is its \<^verbatim>\<open>type\<close>, the dispatch key; \<open>when_condition\<close>
  is \<^verbatim>\<open>when.condition\<close>. The id is the one the action has once the default derived from
  its position has been filled in.
\<close>

record ActionSpec =
  action_id :: string
  action_kind :: string
  params :: "(string \<times> json) list"
  when_condition :: "string option"
  dependsOn :: "string list"
  onError :: OnError
  retryCount :: nat
  retryDelay :: nat
  outputTo :: "string option"

record Manifest = SkillManifest +
  actions :: "ActionSpec list"

datatype ValidationError =
    InvalidSlug string
  | InvalidVersion string
  | InvalidPermission string
  | UnknownOnboardingField string
  | DanglingDependency string string
  | CyclicDependency "string list"

text \<open>The ids an action with the given id depends on.\<close>

definition deps_of :: "ActionSpec list \<Rightarrow> string \<Rightarrow> string list" where
  "deps_of acts i = concat (map dependsOn (filter (\<lambda>a. action_id a = i) acts))"

text \<open>
  The dependency graph: an edge from an action's id to each id in its \<open>dependsOn\<close>. It
  contains a cycle when some id reaches itself along one or more edges.
\<close>

definition depends :: "ActionSpec list \<Rightarrow> (string \<times> string) set" where
  "depends acts = {(i, d). d \<in> set (deps_of acts i)}"

definition cyclic :: "ActionSpec list \<Rightarrow> bool" where
  "cyclic acts = (\<exists>i. (i, i) \<in> (depends acts)\<^sup>+)"

text \<open>
  A list of ids names a cycle when each one depends on the next and the last one on the
  first.
\<close>

fun linked :: "ActionSpec list \<Rightarrow> string list \<Rightarrow> bool" where
  "linked acts (i # j # rest) = (j \<in> set (deps_of acts i) \<and> linked acts (j # rest))"
| "linked acts rest = True"

definition is_cycle :: "ActionSpec list \<Rightarrow> string list \<Rightarrow> bool" where
  "is_cycle acts c = (c \<noteq> [] \<and> linked acts (c @ [hd c]))"

text \<open>
  Modelled from the spec: the validator of lib/skills/parser.ts, which is not among the
  sources. Section 4.1 gives its checks and says that it accumulates the errors and that
  a cycle is rejected with an error naming it; the search for the cycle is the part the
  specification leaves to the implementation. Here it is a depth-first walk along
  \<open>dependsOn\<close> from each action in declaration order: \<open>path\<close> holds the ids walked
  through, the latest first, and meeting one of them again closes a cycle. The walk is as
  deep as there are actions at most.
\<close>

fun find_cycle_from :: "ActionSpec list \<Rightarrow> nat \<Rightarrow> string list \<Rightarrow> string \<Rightarrow> string list option"
  and find_cycle_among :: "ActionSpec list \<Rightarrow> nat \<Rightarrow> string list \<Rightarrow> string list \<Rightarrow> string list option"
  where
  "find_cycle_from acts depth path i =
     (if i \<in> set path then Some (i # rev (takeWhile (\<lambda>j. j \<noteq> i) path))
      else (case depth of
              0 \<Rightarrow> None
            | Suc depth' \<Rightarrow> find_cycle_among acts depth' (i # path) (deps_of acts i)))"
| "find_cycle_among acts depth path [] = None"
| "find_cycle_among acts depth path (i # rest) =
     (case find_cycle_from acts depth path i of
        Some c \<Rightarrow> Some c
      | None \<Rightarrow> find_cycle_among acts depth path rest)"

definition find_cycle :: "ActionSpec list \<Rightarrow> string list option" where
  "find_cycle acts = find_cycle_among acts (length acts) [] (map action_id acts)"

definition cycle_errors :: "ActionSpec list \<Rightarrow> ValidationError list" where
  "cycle_errors acts = (case find_cycle acts of None \<Rightarrow> [] | Some c \<Rightarrow> [CyclicDependency c])"

definition dangling_errors :: "ActionSpec list \<Rightarrow> ValidationError list" where
  "dangling_errors acts =
     concat (map (\<lambda>a. map (DanglingDependency (action_id a))
                        (filter (\<lambda>d. d \<notin> set (map action_id acts)) (dependsOn a))) acts)"

text \<open>
  Modelled from the spec: the slug check of section 4.1. The slug is a non-empty
  lower-case token of letters, digits and hyphens.
\<close>

definition slug_errors :: "string \<Rightarrow> ValidationError list" where
  "slug_errors s =
     (if s \<noteq> [] \<and> list_all (\<lambda>c. c \<in> set ''abcdefghijklmnopqrstuvwxyz0123456789-'') s
      then [] else [InvalidSlug s])"

text \<open>
  Modelled from the spec: the version check of section 4.1. The version is three
  non-negative integers separated by dots.
\<close>

definition version_errors :: "string \<Rightarrow> ValidationError list" where
  "version_errors v =
     (let parts = split_str CHR ''.'' v
      in if length parts = 3 \<and>
            list_all (\<lambda>p. p \<noteq> [] \<and> list_all (\<lambda>c. c \<in> set ''0123456789'') p) parts
         then [] else [InvalidVersion v])"

text \<open>
  Modelled from the spec: the permission grammar of sections 3 and 4.2. A permission
  pattern is \<^verbatim>\<open>category:specific\<close>, \<^verbatim>\<open>category:*\<close> or the global \<^verbatim>\<open>*\<close>; no other place for
  the wildcard is valid.
\<close>

definition valid_pattern :: "string \<Rightarrow> bool" where
  "valid_pattern p =
     (p = ''*'' \<or>
      (let c = takeWhile (\<lambda>x. x \<noteq> CHR '':'') p; s = drop (Suc (length c)) p
       in c \<noteq> [] \<and> CHR ''*'' \<notin> set c \<and> length c < length p \<and> s \<noteq> [] \<and>
          (s = ''*'' \<or> CHR ''*'' \<notin> set s)))"

definition permission_errors :: "string list \<Rightarrow> ValidationError list" where
  "permission_errors ps = map InvalidPermission (filter (\<lambda>p. \<not> valid_pattern p) ps)"

text \<open>
  Modelled from the spec: the onboarding check of section 4.1. An onboarding field is an
  object with a \<^verbatim>\<open>name\<close>; its visibility rule, when it has
  one, is \<^verbatim>\<open>dependsOn.field\<close>, which must name a field of the manifest.
\<close>

definition field_name :: "json \<Rightarrow> string option" where
  "field_name f =
     (case f of
        JObj kvs \<Rightarrow> (case map_of kvs ''name'' of Some (JStr n) \<Rightarrow> Some n | _ \<Rightarrow> None)
      | _ \<Rightarrow> None)"

definition field_rule :: "json \<Rightarrow> string option" where
  "field_rule f =
     (case f of
        JObj kvs \<Rightarrow>
          (case map_of kvs ''dependsOn'' of
             Some (JObj rule) \<Rightarrow> (case map_of rule ''field'' of Some (JStr n) \<Rightarrow> Some n | _ \<Rightarrow> None)
           | _ \<Rightarrow> None)
      | _ \<Rightarrow> None)"

definition onboarding_errors :: "json list \<Rightarrow> ValidationError list" where
  "onboarding_errors fs =
     map UnknownOnboardingField
       (filter (\<lambda>n. Some n \<notin> set (map field_name fs)) (List.map_filter field_rule fs))"

text \<open>
  Modelled from the spec: \<^verbatim>\<open>validate\<close> of section 4.1. Every check runs and the errors
  accumulate; the result is the manifest when there is none, the errors otherwise. The
  manifest is taken in its typed form.
\<close>

definition validation_errors :: "Manifest \<Rightarrow> ValidationError list" where
  "validation_errors m =
     slug_errors (manifest_slug m) @ version_errors (manifest_version m) @
     permission_errors (manifest_permissions m) @ onboarding_errors (onboarding m) @
     dangling_errors (actions m) @ cycle_errors (actions m)"

definition validate :: "Manifest \<Rightarrow> ValidationError list + Manifest" where
  "validate m = (if validation_errors m = [] then Inr m else Inl (validation_errors m))"

section \<open>Dispatch, scheduler and engine (specification, sections 4.4 to 4.6)\<close>

type_synonym ActionResult = MCPCallResult

text \<open>
  Modelled from the spec: the external collaborators of section 6. What the engine is
  given from outside: the registered handlers (\<open>handle\<close>: the action,
  its resolved parameters, the context and the number of the attempt, to the result),
  the capability an action's type implies (\<open>required_permission\<close>) and the printing of
  values inside templates.
\<close>

record externals =
  handle :: "ActionSpec \<Rightarrow> (string \<times> json) list \<Rightarrow> ExecutionContext \<Rightarrow> nat \<Rightarrow> ActionResult"
  required_permission :: "ActionSpec \<Rightarrow> (string \<times> json) list \<Rightarrow> string"
  print_json :: "json \<Rightarrow> string"

datatype SkipReason = ConditionFalsy | DependencyNotMet | UpstreamStop

datatype ActionStatus = Pending | Running | Completed | Failed | Skipped SkipReason

text \<open>
  Modelled from the spec: the per-action progress of a run (sections 4.5 and 4.6). One
  entry of a run's timeline: the action, the context it was dispatched in, its
  terminal status, its resolved parameters, how often its handler was invoked and the
  result of the last invocation, if there was one.
\<close>

record ActionEvent =
  ev_spec :: ActionSpec
  ev_context :: ExecutionContext
  ev_status :: ActionStatus
  ev_params :: "(string \<times> json) list"
  ev_attempts :: nat
  ev_result :: "ActionResult option"
  ev_error :: "string option"

record RunState =
  run_context :: ExecutionContext
  statuses :: "(string \<times> ActionStatus) list"
  waived :: "string list"
  stopped :: bool
  events :: "ActionEvent list"

text \<open>
  Modelled from the spec: step (c) of section 4.4. Template substitution inside a
  parameter value: every string in it is a template.
\<close>

primrec resolve_json :: "(json \<Rightarrow> string) \<Rightarrow> ExecutionContext \<Rightarrow> json \<Rightarrow> json" where
  "resolve_json pv ctx JUndefined = JUndefined"
| "resolve_json pv ctx JNull = JNull"
| "resolve_json pv ctx (JBool b) = JBool b"
| "resolve_json pv ctx (JNum n) = JNum n"
| "resolve_json pv ctx (JStr s) = resolve pv ctx s"
| "resolve_json pv ctx (JArr vs) = JArr (map (resolve_json pv ctx) vs)"
| "resolve_json pv ctx (JObj kvs) = JObj (map (map_prod id (resolve_json pv ctx)) kvs)"

definition resolve_params ::
  "(json \<Rightarrow> string) \<Rightarrow> ExecutionContext \<Rightarrow> (string \<times> json) list \<Rightarrow> (string \<times> json) list" where
  "resolve_params pv ctx ps = map (map_prod id (resolve_json pv ctx)) ps"

text \<open>
  Modelled from the spec: step (e) of section 4.4 with the \<open>retry\<close> policy of section 4.5.
  Invoking the handler: once, and again while it fails and retries are left. The result
  is that of the last attempt, with the number of attempts made.
\<close>

fun attempt ::
  "externals \<Rightarrow> ActionSpec \<Rightarrow> (string \<times> json) list \<Rightarrow> ExecutionContext \<Rightarrow> nat \<Rightarrow> nat
   \<Rightarrow> ActionResult \<times> nat" where
  "attempt ex a ps ctx 0 k = (handle ex a ps ctx k, Suc k)"
| "attempt ex a ps ctx (Suc retries) k =
     (let r = handle ex a ps ctx k
      in if success r then (r, Suc k) else attempt ex a ps ctx retries (Suc k))"

definition invoke ::
  "externals \<Rightarrow> ActionSpec \<Rightarrow> (string \<times> json) list \<Rightarrow> ExecutionContext \<Rightarrow> ActionResult \<times> nat" where
  "invoke ex a ps ctx = attempt ex a ps ctx (if onError a = retry then retryCount a else 0) 0"

text \<open>
  Modelled from the spec: step (b) of section 4.4 and the \<open>continue\<close> policy of section
  4.5. A dependency is met when it completed; an action that failed under \<open>continue\<close>
  counts as if it had not existed.
\<close>

definition dependency_met :: "RunState \<Rightarrow> string \<Rightarrow> bool" where
  "dependency_met st d = (map_of (statuses st) d = Some Completed \<or> d \<in> set (waived st))"

definition skip :: "ActionSpec \<Rightarrow> SkipReason \<Rightarrow> RunState \<Rightarrow> RunState" where
  "skip a reason st =
     st\<lparr>statuses := statuses st @ [(action_id a, Skipped reason)],
        events := events st @
          [\<lparr>ev_spec = a, ev_context = run_context st, ev_status = Skipped reason,
            ev_params = [], ev_attempts = 0, ev_result = None, ev_error = None\<rparr>]\<rparr>"

text \<open>
  Modelled from the spec: the dispatch sequence (a) to (f) of section 4.4 and the error
  policy of section 4.5, for the engine of lib/skills/ignition/engine.ts and
  actions/registry.ts, which are not among the sources. After a \<open>stop\<close> the remaining
  actions are skipped (upstream-stop). Otherwise: (a) a falsy condition skips the action;
  (b) an unmet dependency skips it unless its own \<open>onError\<close> is \<open>continue\<close>; (c) the
  parameters are resolved; (d) without the permission the action fails and the handler
  is not invoked; (e) the handler is invoked, again under \<open>retry\<close> while it fails;
  (f) if \<open>outputTo\<close> is set, the handler's data is bound in the context's variables. A
  failure under \<open>stop\<close> aborts the rest of the run. The wait of \<open>retryDelay\<close> is not
  modelled.
\<close>

definition dispatch :: "externals \<Rightarrow> ActionSpec \<Rightarrow> RunState \<Rightarrow> RunState" where
  "dispatch ex a st =
     (let ctx = run_context st
      in if stopped st then skip a UpstreamStop st
         else if (case when_condition a of
                    None \<Rightarrow> False
                  | Some c \<Rightarrow> \<not> truthy (resolve (print_json ex) ctx c))
           then skip a ConditionFalsy st
         else if onError a \<noteq> continue \<and> \<not> list_all (dependency_met st) (dependsOn a)
           then skip a DependencyNotMet st
         else
           (let ps = resolve_params (print_json ex) ctx (params a);
                permitted = isAllowed_spec (ctx_permissions ctx) (required_permission ex a ps);
                outcome = (if permitted then map_prod Some id (invoke ex a ps ctx) else (None, 0));
                ok = (case fst outcome of Some r \<Rightarrow> success r | None \<Rightarrow> False);
                ctx' = (case (fst outcome, outputTo a) of
                          (Some r, Some x) \<Rightarrow>
                            ctx\<lparr>variables := AList.update x (data r) (variables ctx)\<rparr>
                        | _ \<Rightarrow> ctx)
            in st\<lparr>run_context := ctx',
                  statuses := statuses st @ [(action_id a, if ok then Completed else Failed)],
                  waived := (if \<not> ok \<and> onError a = continue then action_id a # waived st
                             else waived st),
                  stopped := (\<not> ok \<and> onError a = stop),
                  events := events st @
                    [\<lparr>ev_spec = a, ev_context = ctx,
                      ev_status = (if ok then Completed else Failed),
                      ev_params = ps, ev_attempts = snd outcome, ev_result = fst outcome,
                      ev_error = (if permitted then None else Some ''PermissionDenied'')\<rparr>]\<rparr>))"

text \<open>
  Modelled from the spec: the scheduler's order (section 4.5), a topological order of
  \<open>dependsOn\<close> with ties broken by declaration order: the next action is always the first
  one in declaration order whose dependencies have all been scheduled. Actions that never
  become ready (on a cycle, or behind a dangling reference) are not scheduled; validation
  keeps such manifests from running.
\<close>

definition ready :: "string list \<Rightarrow> ActionSpec \<Rightarrow> bool" where
  "ready scheduled a = list_all (\<lambda>d. d \<in> set scheduled) (dependsOn a)"

fun pick_ready :: "string list \<Rightarrow> ActionSpec list \<Rightarrow> (ActionSpec \<times> ActionSpec list) option" where
  "pick_ready scheduled [] = None"
| "pick_ready scheduled (a # pending) =
     (if ready scheduled a then Some (a, pending)
      else map_option (\<lambda>(b, rest). (b, a # rest)) (pick_ready scheduled pending))"

lemma pick_ready_shorter:
  "pick_ready scheduled pending = Some (a, rest) \<Longrightarrow> length rest < length pending"
  by (induction pending arbitrary: rest) (auto split: if_splits)

function schedule_from :: "string list \<Rightarrow> ActionSpec list \<Rightarrow> ActionSpec list" where
  "schedule_from scheduled pending =
     (case pick_ready scheduled pending of
        None \<Rightarrow> []
      | Some (a, rest) \<Rightarrow> a # schedule_from (action_id a # scheduled) rest)"
  by pat_completeness auto
termination
  by (relation "measure (\<lambda>(scheduled, pending). length pending)")
     (auto dest: pick_ready_shorter)

definition schedule :: "ActionSpec list \<Rightarrow> ActionSpec list" where
  "schedule acts = schedule_from [] acts"

text \<open>
  Modelled from the spec: a run (sections 4.5 and 4.6). It starts from a fresh state and
  dispatches the actions one at a time in the scheduler's order.
\<close>

definition initial_state :: "ExecutionContext \<Rightarrow> RunState" where
  "initial_state ctx =
     \<lparr>run_context = ctx, statuses = [], waived = [], stopped = False, events = []\<rparr>"

definition run_actions :: "externals \<Rightarrow> ActionSpec list \<Rightarrow> RunState \<Rightarrow> RunState" where
  "run_actions ex order st = foldl (\<lambda>s a. dispatch ex a s) st order"

definition run :: "externals \<Rightarrow> ActionSpec list \<Rightarrow> ExecutionContext \<Rightarrow> RunState" where
  "run ex acts ctx = run_actions ex (schedule acts) (initial_state ctx)"

text \<open>
  Modelled from the spec: the engine's entry (section 7). The engine validates before it
  runs: validation errors are returned in bulk before any run starts, and a manifest with
  errors never reaches execution.
\<close>

definition execute :: "externals \<Rightarrow> Manifest \<Rightarrow> ExecutionContext \<Rightarrow> ValidationError list + RunState" where
  "execute ex m ctx =
     (case validate m of
        Inl errs \<Rightarrow> Inl errs
      | Inr m' \<Rightarrow> Inr (run ex (actions m') ctx))"

definition action :: "string \<Rightarrow> string list \<Rightarrow> string option \<Rightarrow> ActionSpec" where
  "action i deps out =
     \<lparr>action_id = i, action_kind = ''mcp:call'', params = [], when_condition = None,
      dependsOn = deps, onError = stop, retryCount = 0, retryDelay = 0, outputTo = out\<rparr>"

definition example_manifest :: "ActionSpec list \<Rightarrow> Manifest" where
  "example_manifest acts =
     \<lparr>manifest_name = ''Lead Capture'', manifest_slug = ''lead-capture'',
      manifest_version = ''1.0.0'', manifest_permissions = [''mcp:*''], onboarding = [],
      actions = acts\<rparr>"

text \<open>Handlers that succeed and return the id of the action as their data.\<close>

definition example_externals :: externals where
  "example_externals =
     \<lparr>handle = (\<lambda>a ps ctx k. \<lparr>success = True, data = JStr (action_id a), error = JUndefined\<rparr>),
      required_permission = (\<lambda>a ps. ''mcp:ghl:create_contact''),
      print_json = example_print\<rparr>"

text \<open>An id leads to a cycle when it reaches an id that lies on one.\<close>

definition leads_to_cycle :: "ActionSpec list \<Rightarrow> string \<Rightarrow> bool" where
  "leads_to_cycle acts i = (\<exists>c. (i, c) \<in> (depends acts)\<^sup>* \<and> (c, c) \<in> (depends acts)\<^sup>+)"

definition example_cyclic :: Manifest where
  "example_cyclic = example_manifest
     [action ''a'' [''b''] None, action ''b'' [''c'', ''zz''] None, action ''c'' [''b''] None]"

text \<open>The timeline entry that dispatching an action adds.\<close>

definition new_event :: "externals \<Rightarrow> ActionSpec \<Rightarrow> RunState \<Rightarrow> ActionEvent" where
  "new_event ex a st = last (events (dispatch ex a st))"

definition example_overwrite :: "ActionSpec list" where
  "example_overwrite =
     [action ''a'' [] (Some ''x''), action ''c'' [] (Some ''x''), action ''b'' [''a''] None]"

definition example_pipeline :: "ActionSpec list" where
  "example_pipeline =
     [action ''b'' [''a''] None, action ''a'' [] (Some ''x''), action ''c'' [] None]"

section \<open>Facts about the string functions\<close>

lemma split_not_Nil: "split_str sep s \<noteq> []"
  by (induction s) (auto split: list.splits)

lemma hd_split: "hd (split_str sep s) = takeWhile (\<lambda>c. c \<noteq> sep) s"
proof (induction s)
  case Nil
  show ?case by simp
next
  case (Cons c cs)
  then show ?case
    using split_not_Nil [of sep cs] by (cases "split_str sep cs") auto
qed

lemma category_takeWhile: "permission_category p = takeWhile (\<lambda>c. c \<noteq> CHR '':'') p"
  using hd_split [of "CHR '':''" p] split_not_Nil [of "CHR '':''" p]
  by (cases "split_str CHR '':'' p") (auto simp: permission_category_def)

lemma includes_iff: "includes_str hay needle \<longleftrightarrow> (\<exists>a b. hay = a @ needle @ b)"
proof (induction hay)
  case Nil
  show ?case by auto
next
  case (Cons c cs)
  show ?case
  proof
    assume "includes_str (c # cs) needle"
    then consider "prefix needle (c # cs)" | "includes_str cs needle" by auto
    then show "\<exists>a b. c # cs = a @ needle @ b"
    proof cases
      case 1
      then obtain b where "c # cs = needle @ b" by (auto simp: prefix_def)
      then have "c # cs = [] @ needle @ b" by simp
      then show ?thesis by blast
    next
      case 2
      with Cons obtain a b where "cs = a @ needle @ b" by blast
      then have "c # cs = (c # a) @ needle @ b" by simp
      then show ?thesis by blast
    qed
  next
    assume "\<exists>a b. c # cs = a @ needle @ b"
    then obtain a b where ab: "c # cs = a @ needle @ b" by blast
    show "includes_str (c # cs) needle"
    proof (cases a)
      case Nil
      with ab have "prefix needle (c # cs)" by (simp add: prefix_def)
      then show ?thesis by simp
    next
      case (Cons x a')
      with ab have "cs = a' @ needle @ b" by simp
      with Cons.IH have "includes_str cs needle" by blast
      then show ?thesis by simp
    qed
  qed
qed

section \<open>The permission check\<close>

text \<open>
  C1 (as the code has it). For every session and every required pattern, \<open>hasPermission\<close>
  returns true if and only if the granted list contains \<^verbatim>\<open>admin:*\<close>, or the required
  pattern is an exact member of the granted list, or the granted list contains
  \<^verbatim>\<open>category:*\<close> where category is the prefix of the required pattern before its first
  colon; it returns false in every other case. The bare \<^verbatim>\<open>*\<close> is an ordinary pattern.
  With granted list \<^verbatim>\<open>["mcp:ghl:*"]\<close> the check denies \<^verbatim>\<open>mcp:ghl:create_contact\<close> (its
  category is \<^verbatim>\<open>mcp\<close>) and denies \<^verbatim>\<open>mcp:stripe:create_customer\<close>; with \<^verbatim>\<open>["mcp:*"]\<close> it
  allows both.
\<close>

theorem hasPermission_iff:
  "(hasPermission u required \<longleftrightarrow>
      ''admin:*'' \<in> set (permissions u) \<or> required \<in> set (permissions u) \<or>
      (takeWhile (\<lambda>c. c \<noteq> CHR '':'') required @ '':*'') \<in> set (permissions u)) \<and>
   hasPermission (u\<lparr>permissions := [''mcp:ghl:*'']\<rparr>) ''mcp:ghl:create_contact'' = False \<and>
   hasPermission (u\<lparr>permissions := [''mcp:ghl:*'']\<rparr>) ''mcp:stripe:create_customer'' = False \<and>
   hasPermission (u\<lparr>permissions := [''mcp:*'']\<rparr>) ''mcp:ghl:create_contact'' = True \<and>
   hasPermission (u\<lparr>permissions := [''mcp:*'']\<rparr>) ''mcp:stripe:create_customer'' = True"
proof -
  have gen: "\<And>v :: 'a AuthSession_scheme. \<And>r. hasPermission v r \<longleftrightarrow>
      ''admin:*'' \<in> set (permissions v) \<or> r \<in> set (permissions v) \<or>
      (takeWhile (\<lambda>c. c \<noteq> CHR '':'') r @ '':*'') \<in> set (permissions v)"
    by (simp add: hasPermission_def category_takeWhile)
  show ?thesis
    by (intro conjI; (subst gen)?; simp)
qed

text \<open>
  The claim as the specification words it fails on the code in three ways: the global
  wildcard \<^verbatim>\<open>*\<close> grants nothing, \<^verbatim>\<open>admin:*\<close> grants everything, and \<^verbatim>\<open>mcp:ghl:*\<close> does
  not cover \<^verbatim>\<open>mcp:ghl:create_contact\<close>.
\<close>

theorem hasPermission_spec_counterexample:
  "hasPermission (session_with [''*'']) ''content:read''
     \<noteq> isAllowed_spec [''*''] ''content:read'' \<and>
   hasPermission (session_with [''admin:*'']) ''content:read''
     \<noteq> isAllowed_spec [''admin:*''] ''content:read'' \<and>
   hasPermission (session_with [''mcp:ghl:*'']) ''mcp:ghl:create_contact'' = False"
  by (simp add: hasPermission_def category_takeWhile isAllowed_spec_def
      session_with_def)

section \<open>The risk classification\<close>

text \<open>
  What the code computes on any list of strings: it goes by the literals of
  \<open>criticalRisk\<close> and \<open>highRisk\<close> and by the substring \<^verbatim>\<open>write\<close>.
\<close>

lemma calculateRiskLevel_literals:
  "calculateRiskLevel ps =
     (if ''*'' \<in> set ps then Critical
      else if set ps \<inter> {''database:delete'', ''files:delete'', ''exec:server'', ''env:write''} \<noteq> {}
        then High
      else if (\<exists>p a b. p \<in> set ps \<and> p = a @ ''write'' @ b) then Medium
      else Low)"
proof -
  have crit: "list_ex (\<lambda>p. List.member criticalRisk p) ps \<longleftrightarrow> ''*'' \<in> set ps"
    by (auto simp: list_ex_iff criticalRisk_def)
  have high: "list_ex (\<lambda>p. List.member highRisk p) ps \<longleftrightarrow>
      set ps \<inter> {''database:delete'', ''files:delete'', ''exec:server'', ''env:write''} \<noteq> {}"
    by (auto simp: list_ex_iff highRisk_def)
  have med: "list_ex (\<lambda>p. includes_str p ''write'') ps \<longleftrightarrow>
      (\<exists>p a b. p \<in> set ps \<and> p = a @ ''write'' @ b)"
    by (auto simp: list_ex_iff includes_iff)
  show ?thesis
    unfolding calculateRiskLevel_def crit high med by (rule refl)
qed







section \<open>Password hashing and verification\<close>

lemma toString_hex_not_Nil: "rnd \<noteq> [] \<Longrightarrow> toString_hex rnd \<noteq> []"
  by (cases rnd) simp_all

lemma hashPassword_given_salt:
  "s \<noteq> [] \<Longrightarrow>
   hashPassword K rnd p (Some s) = \<lparr>hash = K p s 100000 64 ''sha512'', salt = s\<rparr>"
  by (simp add: hashPassword_def Let_def)

text \<open>
  C10 (as the code has it). For every password \<open>p\<close> and every draw of sixteen random
  bytes, hashing then verifying round-trips: verifying \<open>p\<close> against the hash and salt that
  \<open>hashPassword p\<close> returned yields true, whatever is drawn during verification. For a
  fixed non-empty salt \<open>hashPassword\<close> is deterministic, and verification then depends
  only on the password, the stored hash and the salt: it compares the key derived from
  password and salt with the stored hash. An empty salt counts as absent: hashing with it
  is hashing with no salt given, so it is replaced by a fresh random one.
\<close>

theorem hashPassword_roundtrip:
  "(length rnd = 16 \<longrightarrow>
      verifyPassword K rnd' p (hash (hashPassword K rnd p None))
        (salt (hashPassword K rnd p None))) \<and>
   (s \<noteq> [] \<longrightarrow>
      hashPassword K rnd p (Some s) = hashPassword K rnd' p (Some s) \<and>
      verifyPassword K rnd p h s = verifyPassword K rnd' p h s \<and>
      verifyPassword K rnd p h s = (K p s 100000 64 ''sha512'' = h)) \<and>
   hashPassword K rnd p (Some []) = hashPassword K rnd p None"
proof (intro conjI impI)
  assume len: "length rnd = 16"
  then have "rnd \<noteq> []" by auto
  then have ne: "toString_hex rnd \<noteq> []" by (rule toString_hex_not_Nil)
  have first: "hashPassword K rnd p None =
      \<lparr>hash = K p (toString_hex rnd) 100000 64 ''sha512'', salt = toString_hex rnd\<rparr>"
    by (simp add: hashPassword_def Let_def)
  show "verifyPassword K rnd' p (hash (hashPassword K rnd p None))
      (salt (hashPassword K rnd p None))"
    unfolding first verifyPassword_def
    by (simp add: hashPassword_given_salt [OF ne])
next
  assume s: "s \<noteq> []"
  show "hashPassword K rnd p (Some s) = hashPassword K rnd' p (Some s)"
    by (simp add: hashPassword_given_salt [OF s])
  show "verifyPassword K rnd p h s = verifyPassword K rnd' p h s"
    by (simp add: verifyPassword_def hashPassword_given_salt [OF s])
  show "verifyPassword K rnd p h s = (K p s 100000 64 ''sha512'' = h)"
    by (simp add: verifyPassword_def hashPassword_given_salt [OF s])
next
  show "hashPassword K rnd p (Some []) = hashPassword K rnd p None"
    by (simp add: hashPassword_def)
qed

theorem hashPassword_roundtrip_witness:
  "verifyPassword example_kdf [9, 9, 9, 9, 9, 9, 9, 9, 9, 9, 9, 9, 9, 9, 9, 9] ''hunter2''
     (hash (hashPassword example_kdf [0, 1, 2, 3, 4, 5, 6, 7, 8, 9, 10, 11, 12, 13, 14, 255]
        ''hunter2'' None))
     (salt (hashPassword example_kdf [0, 1, 2, 3, 4, 5, 6, 7, 8, 9, 10, 11, 12, 13, 14, 255]
        ''hunter2'' None)) \<and>
   hashPassword example_kdf [0, 1, 2, 3, 4, 5, 6, 7, 8, 9, 10, 11, 12, 13, 14, 255]
       ''hunter2'' (Some ''ab12'')
     = hashPassword example_kdf [9, 9, 9, 9, 9, 9, 9, 9, 9, 9, 9, 9, 9, 9, 9, 9]
       ''hunter2'' (Some ''ab12'') \<and>
   verifyPassword example_kdf [0, 1, 2, 3, 4, 5, 6, 7, 8, 9, 10, 11, 12, 13, 14, 255]
     ''hunter2'' ''hunter2$ab12'' ''ab12''"
proof -
  have len: "length [0, 1, 2, 3, 4, 5, 6, 7, 8, 9, 10, 11, 12, 13, 14, 255 :: 8 word] = 16"
    by simp
  have s: "''ab12'' \<noteq> []" by simp
  have kdf: "example_kdf ''hunter2'' ''ab12'' 100000 64 ''sha512'' = ''hunter2$ab12''"
    by (simp add: example_kdf_def)
  show ?thesis
    using hashPassword_roundtrip [of "[0, 1, 2, 3, 4, 5, 6, 7, 8, 9, 10, 11, 12, 13, 14, 255]"
        example_kdf "[9, 9, 9, 9, 9, 9, 9, 9, 9, 9, 9, 9, 9, 9, 9, 9]" "''hunter2''"
        "''ab12''" "''hunter2$ab12''"] len s kdf
    by blast
qed

text \<open>
  The claim as worded (for a fixed salt, hashing is deterministic) fails at the empty
  salt: two calls with the same password and the salt \<^verbatim>\<open>""\<close> return different salts, and
  with the stand-in derivation the same stored pair verifies under one draw and not under
  another.
\<close>

theorem hashPassword_empty_salt_counterexample:
  "salt (hashPassword example_kdf [0, 0, 0, 0, 0, 0, 0, 0, 0, 0, 0, 0, 0, 0, 0, 0] ''hunter2'' (Some []))
     \<noteq> salt (hashPassword example_kdf [17, 0, 0, 0, 0, 0, 0, 0, 0, 0, 0, 0, 0, 0, 0, 0] ''hunter2'' (Some [])) \<and>
   verifyPassword example_kdf [0, 0, 0, 0, 0, 0, 0, 0, 0, 0, 0, 0, 0, 0, 0, 0] ''hunter2''
     ''hunter2$00000000000000000000000000000000'' []
     \<noteq> verifyPassword example_kdf [17, 0, 0, 0, 0, 0, 0, 0, 0, 0, 0, 0, 0, 0, 0, 0] ''hunter2''
     ''hunter2$00000000000000000000000000000000'' []"
  by (simp add: hashPassword_def verifyPassword_def example_kdf_def hex_digit_def Let_def)

section \<open>The MCP registry\<close>

text \<open>
  C9. For every slug whose registered server has \<open>isBuiltIn = true\<close>,
  \<open>unregisterServer\<close> throws and leaves the registry, the table and the list of issued
  delete statements as they were. Whatever the call removes from the registry was
  registered under the slug passed and had \<open>isBuiltIn = false\<close>.
\<close>

theorem unregisterServer_builtin:
  "(servers reg slug = Some server \<and> isBuiltIn server \<longrightarrow>
      unregisterServer slug reg = (Thrown ''Cannot unregister built-in server'', reg)) \<and>
   (\<forall>slug' server'. servers reg slug' = Some server' \<and>
        servers (snd (unregisterServer slug reg)) slug' = None \<longrightarrow>
      slug' = slug \<and> \<not> isBuiltIn server' \<and> fst (unregisterServer slug reg) = Returned ())"
  by (auto simp: unregisterServer_def split: if_splits option.splits)

theorem unregisterServer_builtin_witness:
  "unregisterServer ''stripe'' (example_registry True)
     = (Thrown ''Cannot unregister built-in server'', example_registry True) \<and>
   servers (snd (unregisterServer ''stripe'' (example_registry True))) ''stripe''
     = Some (example_server True) \<and>
   deletes_issued (snd (unregisterServer ''stripe'' (example_registry True))) = [] \<and>
   servers (snd (unregisterServer ''stripe'' (example_registry False))) ''stripe'' = None \<and>
   \<not> isBuiltIn (example_server False)"
proof -
  have reg: "servers (example_registry True) ''stripe'' = Some (example_server True)"
    by (simp add: example_registry_def)
  have built: "isBuiltIn (example_server True)"
    by (simp add: example_server_def)
  have gone: "servers (snd (unregisterServer ''stripe'' (example_registry False))) ''stripe'' = None"
    by (simp add: unregisterServer_def example_registry_def example_server_def)
  have was: "servers (example_registry False) ''stripe'' = Some (example_server False)"
    by (simp add: example_registry_def)
  from unregisterServer_builtin [of "example_registry True" "''stripe''" "example_server True"]
    reg built
  have thrown: "unregisterServer ''stripe'' (example_registry True)
      = (Thrown ''Cannot unregister built-in server'', example_registry True)"
    by blast
  from unregisterServer_builtin [of "example_registry False" "''stripe''" "example_server False"]
    gone was
  have custom: "\<not> isBuiltIn (example_server False)" by blast
  show ?thesis
    using thrown custom gone reg by (simp add: example_registry_def)
qed

section \<open>The direct tool-execution route\<close>

text \<open>
  C8. For every user id and every environment map, the context built by
  \<open>createMinimalContext\<close> has permissions exactly \<^verbatim>\<open>["mcp:*"]\<close>, and so has its manifest.
  Every call that \<open>POST\<close> makes to the handler passes such a context, built for the user
  \<^verbatim>\<open>api-user\<close>, together with the server and tool of the request: each tool runs under the
  blanket grant, never under a grant of its own.
\<close>

theorem createMinimalContext_permissions:
  "ctx_permissions (createMinimalContext process_env uid env) = [''mcp:*''] \<and>
   manifest_permissions (manifest (createMinimalContext process_env uid env)) = [''mcp:*''] \<and>
   (\<forall>call \<in> set (handler_calls (POST reg mcpHandler process_env t0 t1 serverSlug toolName req)).
      ctx_permissions (fst call) = [''mcp:*''] \<and>
      manifest_permissions (manifest (fst call)) = [''mcp:*''] \<and>
      ctx_userId (fst call) = ''api-user'' \<and>
      action_server (snd call) = serverSlug \<and> action_tool (snd call) = toolName)"
proof (intro conjI ballI)
  show "ctx_permissions (createMinimalContext process_env uid env) = [''mcp:*'']"
    by (simp add: createMinimalContext_def)
  show "manifest_permissions (manifest (createMinimalContext process_env uid env)) = [''mcp:*'']"
    by (simp add: createMinimalContext_def)
next
  fix call
  assume "call \<in> set (handler_calls (POST reg mcpHandler process_env t0 t1 serverSlug toolName req))"
  then obtain env params where
    call: "call = (createMinimalContext process_env ''api-user'' env,
       \<lparr>action_type = ''mcp:call'', action_server = serverSlug, action_tool = toolName,
        action_params = params\<rparr>)"
    by (auto simp: POST_def Let_def
        split: option.splits if_splits sum.splits request_body.splits)
  show "ctx_permissions (fst call) = [''mcp:*'']"
    and "manifest_permissions (manifest (fst call)) = [''mcp:*'']"
    and "ctx_userId (fst call) = ''api-user''"
    and "action_server (snd call) = serverSlug"
    and "action_tool (snd call) = toolName"
    by (simp_all add: call createMinimalContext_def)
qed

theorem createMinimalContext_permissions_witness:
  "map (\<lambda>call. (ctx_permissions (fst call), action_tool (snd call)))
     (handler_calls (POST (example_registry True) example_handler Map.empty 100 130
        ''stripe'' ''list_customers''
        (Body \<lparr>body_params = None, body_environment = None\<rparr>)))
   = [([''mcp:*''], ''list_customers'')]"
proof -
  have calls: "handler_calls (POST (example_registry True) example_handler Map.empty 100 130
        ''stripe'' ''list_customers''
        (Body \<lparr>body_params = None, body_environment = None\<rparr>))
      = [(createMinimalContext Map.empty ''api-user'' Map.empty,
          \<lparr>action_type = ''mcp:call'', action_server = ''stripe'',
           action_tool = ''list_customers'', action_params = JObj []\<rparr>)]"
    by (simp add: POST_def getServer_def example_registry_def example_server_def
        example_tool_def example_handler_def Let_def)
  show ?thesis
    using createMinimalContext_permissions [of Map.empty "''api-user''" Map.empty
        "example_registry True" example_handler 100 130 "''stripe''" "''list_customers''"
        "Body \<lparr>body_params = None, body_environment = None\<rparr>"]
    unfolding calls by simp
qed

section \<open>Rollback\<close>

lemma revert_already:
  "logs st logId = Some e \<Longrightarrow> reversible e \<Longrightarrow> reverted e \<Longrightarrow>
   revert undo now logId st = (AlreadyReverted, st)"
  by (simp add: revert_def)

lemma revert_each_already:
  "logs st logId = Some e \<Longrightarrow> reversible e \<Longrightarrow> reverted e \<Longrightarrow>
   revert_each undo nows logId st = (replicate (length nows) AlreadyReverted, st)"
  by (induction nows) (simp_all add: revert_already)

lemma revert_Reverted:
  assumes "logs st logId = Some e" and "fst (revert undo now logId st) = Reverted"
  shows "reversible e \<and> \<not> reverted e \<and>
         snd (revert undo now logId st) =
           \<lparr>logs = (logs st)(logId \<mapsto> e\<lparr>reverted := True, reverted_at := Some now\<rparr>),
            inverses_invoked = (log_action e, log_target e, before_state e) # inverses_invoked st\<rparr>"
  using assms by (auto simp: revert_def Let_def split: if_splits option.splits)

lemma revert_keeps_invariant:
  assumes "logs st i = Some e" and "entry_invariant e"
    and "logs (snd (revert undo now logId st)) i = Some e'"
  shows "entry_invariant e'"
  using assms
  by (auto simp: revert_def Let_def entry_invariant_def split: if_splits option.splits)

lemma new_skill_log_invariant:
  "entry_invariant (new_skill_log lid inst act tgt before after meta can_revert now)"
  by (simp add: entry_invariant_def new_skill_log_def)

text \<open>
  C2. For every audit log entry, \<open>revert\<close> returns \<open>NotReversible\<close> when the entry has
  \<open>reversible = false\<close> and changes nothing; the entry's \<open>reverted\<close> flag, which is false
  by the data model's invariant, stays false. On an entry with \<open>reverted = true\<close> (which
  by the invariant is reversible) it returns \<open>AlreadyReverted\<close> every time it is called,
  however often, and changes nothing: no entry is touched and no inverse is invoked. A
  successful revert changes the entry in its \<open>reverted\<close> flag and its \<open>reverted_at\<close> stamp
  only, leaves every other entry alone, and any later revert of the same entry is
  \<open>AlreadyReverted\<close>.
\<close>

theorem revert_cases:
  assumes "logs st logId = Some e"
  shows "(\<not> reversible e \<longrightarrow> revert undo now logId st = (NotReversible, st)) \<and>
         (\<not> reversible e \<and> entry_invariant e \<longrightarrow>
            map_option reverted (logs (snd (revert undo now logId st)) logId) = Some False) \<and>
         (reverted e \<and> entry_invariant e \<longrightarrow>
            revert undo now logId st = (AlreadyReverted, st) \<and>
            revert_each undo nows logId st = (replicate (length nows) AlreadyReverted, st)) \<and>
         (fst (revert undo now logId st) = Reverted \<longrightarrow>
            logs (snd (revert undo now logId st)) =
              (logs st)(logId \<mapsto> e\<lparr>reverted := True, reverted_at := Some now\<rparr>) \<and>
            revert_each undo nows logId (snd (revert undo now logId st)) =
              (replicate (length nows) AlreadyReverted, snd (revert undo now logId st)))"
proof (intro conjI impI)
  assume "\<not> reversible e"
  with assms show "revert undo now logId st = (NotReversible, st)"
    by (simp add: revert_def)
next
  assume "\<not> reversible e \<and> entry_invariant e"
  then have "\<not> reversible e" and "\<not> reverted e"
    by (auto simp: entry_invariant_def split: if_splits)
  with assms show "map_option reverted (logs (snd (revert undo now logId st)) logId) = Some False"
    by (simp add: revert_def)
next
  assume "reverted e \<and> entry_invariant e"
  then have rd: "reverted e" and rv: "reversible e"
    by (auto simp: entry_invariant_def split: if_splits)
  from assms rv rd show "revert undo now logId st = (AlreadyReverted, st)"
    by (rule revert_already)
  from assms rv rd
  show "revert_each undo nows logId st = (replicate (length nows) AlreadyReverted, st)"
    by (rule revert_each_already)
next
  assume ok: "fst (revert undo now logId st) = Reverted"
  let ?st' = "snd (revert undo now logId st)"
  let ?e' = "e\<lparr>reverted := True, reverted_at := Some now\<rparr>"
  from revert_Reverted [OF assms ok]
  have rv: "reversible e"
    and st': "?st' = \<lparr>logs = (logs st)(logId \<mapsto> ?e'),
        inverses_invoked = (log_action e, log_target e, before_state e) # inverses_invoked st\<rparr>"
    by blast+
  show "logs ?st' = (logs st)(logId \<mapsto> ?e')"
    by (simp add: st')
  have "logs ?st' logId = Some ?e'" by (simp add: st')
  moreover have "reversible ?e'" using rv by simp
  moreover have "reverted ?e'" by simp
  ultimately show "revert_each undo nows logId ?st'
      = (replicate (length nows) AlreadyReverted, ?st')"
    by (rule revert_each_already)
qed

theorem revert_cases_witness:
  "revert (\<lambda>a t s. None) 1700000500 ''log-1'' (example_audit_state False)
     = (NotReversible, example_audit_state False) \<and>
   map_option reverted
       (logs (snd (revert (\<lambda>a t s. None) 1700000500 ''log-1'' (example_audit_state False)))
          ''log-1'')
     = Some False \<and>
   fst (revert (\<lambda>a t s. None) 1700000500 ''log-1'' (example_audit_state True)) = Reverted \<and>
   revert (\<lambda>a t s. None) 1700000600 ''log-1''
       (snd (revert (\<lambda>a t s. None) 1700000500 ''log-1'' (example_audit_state True)))
     = (AlreadyReverted,
        snd (revert (\<lambda>a t s. None) 1700000500 ''log-1'' (example_audit_state True))) \<and>
   revert_each (\<lambda>a t s. None) [1700000600, 1700000700] ''log-1''
       (snd (revert (\<lambda>a t s. None) 1700000500 ''log-1'' (example_audit_state True)))
     = ([AlreadyReverted, AlreadyReverted],
        snd (revert (\<lambda>a t s. None) 1700000500 ''log-1'' (example_audit_state True)))"
proof -
  let ?undo = "\<lambda>a t s. None :: string option"
  let ?s1 = "snd (revert ?undo 1700000500 ''log-1'' (example_audit_state True))"
  let ?e1 = "(example_log True)\<lparr>reverted := True, reverted_at := Some 1700000500\<rparr>"
  have l0: "logs (example_audit_state False) ''log-1'' = Some (example_log False)"
    and l1: "logs (example_audit_state True) ''log-1'' = Some (example_log True)"
    by (simp_all add: example_audit_state_def)
  have inv0: "entry_invariant (example_log False)"
    by (simp add: example_log_def new_skill_log_invariant)
  have nr: "\<not> reversible (example_log False)"
    by (simp add: example_log_def new_skill_log_def)
  have ok: "fst (revert ?undo 1700000500 ''log-1'' (example_audit_state True)) = Reverted"
    by (simp add: revert_def example_audit_state_def example_log_def new_skill_log_def Let_def)
  have l2: "logs ?s1 ''log-1'' = Some ?e1"
    by (simp add: revert_def example_audit_state_def example_log_def new_skill_log_def Let_def)
  have e1: "reverted ?e1 \<and> entry_invariant ?e1"
    by (simp add: entry_invariant_def example_log_def new_skill_log_def)
  from revert_cases [OF l0, of ?undo 1700000500 "[]"] nr inv0
  have a: "revert ?undo 1700000500 ''log-1'' (example_audit_state False)
        = (NotReversible, example_audit_state False)"
    and a': "map_option reverted
        (logs (snd (revert ?undo 1700000500 ''log-1'' (example_audit_state False))) ''log-1'')
        = Some False"
    by blast+
  from revert_cases [OF l1, of ?undo 1700000500 "[1700000600, 1700000700]"] ok
  have b: "revert_each ?undo [1700000600, 1700000700] ''log-1'' ?s1
     = (replicate (length [1700000600, 1700000700 :: int]) AlreadyReverted, ?s1)"
    by blast
  from revert_cases [OF l2, of ?undo 1700000600 "[]"] e1
  have c: "revert ?undo 1700000600 ''log-1'' ?s1 = (AlreadyReverted, ?s1)"
    by blast
  from a a' ok b c show ?thesis by (simp add: numeral_2_eq_2)
qed

section \<open>Template resolution\<close>

lemma split_close_append:
  "CHR ''}'' \<notin> set p \<Longrightarrow> split_close (p @ CHR ''}'' # CHR ''}'' # r) = Some (p, r)"
proof (induction p)
  case Nil
  show ?case by simp
next
  case (Cons x p')
  then have x: "x \<noteq> CHR ''}''" and IH: "split_close (p' @ CHR ''}'' # CHR ''}'' # r) = Some (p', r)"
    by auto
  obtain d cs where dcs: "p' @ CHR ''}'' # CHR ''}'' # r = d # cs"
    by (cases p') auto
  have "split_close (x # d # cs) = map_option (\<lambda>(p, r). (x # p, r)) (split_close (d # cs))"
    using x by simp
  with IH dcs show ?case by simp
qed

lemma parse_expression:
  "CHR ''}'' \<notin> set p \<Longrightarrow>
   parse_template (''{{'' @ p @ ''}}'' @ t) = Expression p # parse_template t"
  by (simp add: split_close_append)

lemma parse_literal:
  "CHR ''{'' \<notin> set l \<Longrightarrow> parse_template (l @ t) = foldr add_char l (parse_template t)"
  by (induction l) auto

lemma foldr_add_char:
  "l \<noteq> [] \<Longrightarrow> \<not> starts_with_literal segs \<Longrightarrow> foldr add_char l segs = Literal l # segs"
proof (induction l)
  case Nil
  then show ?case by simp
next
  case (Cons c l')
  show ?case
  proof (cases "l' = []")
    case True
    with Cons.prems(2) show ?thesis
      by (cases segs rule: starts_with_literal.cases) auto
  next
    case False
    with Cons have "foldr add_char l' segs = Literal l' # segs" by blast
    then show ?thesis by simp
  qed
qed

lemma parse_template_text:
  "plain_segments segs \<Longrightarrow> parse_template (template_text segs) = segs"
proof (induction segs)
  case Nil
  show ?case by (simp add: template_text_def)
next
  case (Cons sg segs)
  show ?case
  proof (cases sg)
    case (Literal l)
    with Cons.prems have l: "l \<noteq> []" "CHR ''{'' \<notin> set l" "\<not> starts_with_literal segs"
      and rest: "plain_segments segs" by auto
    from Cons.IH [OF rest] have IH: "parse_template (template_text segs) = segs" .
    have "parse_template (template_text (sg # segs)) = parse_template (l @ template_text segs)"
      by (simp add: template_text_def Literal)
    also have "\<dots> = foldr add_char l (parse_template (template_text segs))"
      using l(2) by (rule parse_literal)
    also have "\<dots> = Literal l # segs"
      unfolding IH using l(1,3) by (rule foldr_add_char)
    finally show ?thesis by (simp add: Literal)
  next
    case (Expression p)
    with Cons.prems have p: "CHR ''}'' \<notin> set p" and rest: "plain_segments segs" by auto
    from Cons.IH [OF rest] have IH: "parse_template (template_text segs) = segs" .
    have "parse_template (template_text (sg # segs))
        = parse_template (''{{'' @ p @ ''}}'' @ template_text segs)"
      by (simp add: template_text_def Expression)
    also have "\<dots> = Expression p # parse_template (template_text segs)"
      using p by (rule parse_expression)
    finally show ?thesis by (simp add: IH Expression)
  qed
qed

text \<open>
  C5. For every template and scope: a template that is exactly one expression
  \<^verbatim>\<open>{{path}}\<close> resolves to the value looked up, itself, so that a boolean or an object
  keeps its type; a template that mixes literal text with expressions, or has several
  expressions, resolves to a string: its text with each expression replaced by the
  interpolation of the value looked up. (Paths have no closing brace, and the literal
  text no opening brace.) Whatever the template, if it does not parse as one single
  expression, the result is the string of its rendered segments.
\<close>

theorem resolve_types:
  "(CHR ''}'' \<notin> set p \<longrightarrow>
      resolve print_value ctx (''{{'' @ p @ ''}}'') = lookup_path ctx p) \<and>
   (plain_segments segs \<and> \<not> single_expression segs \<longrightarrow>
      resolve print_value ctx (template_text segs)
        = JStr (concat (map (render print_value ctx) segs))) \<and>
   (\<not> single_expression (parse_template t) \<longrightarrow>
      resolve print_value ctx t
        = JStr (concat (map (render print_value ctx) (parse_template t))))"
proof (intro conjI impI)
  assume p: "CHR ''}'' \<notin> set p"
  from parse_expression [OF p, of "[]"]
  have "parse_template (''{{'' @ p @ ''}}'') = [Expression p]" by simp
  then show "resolve print_value ctx (''{{'' @ p @ ''}}'') = lookup_path ctx p"
    by (simp add: resolve_def)
next
  assume a: "plain_segments segs \<and> \<not> single_expression segs"
  then have "parse_template (template_text segs) = segs" by (simp add: parse_template_text)
  with a show "resolve print_value ctx (template_text segs)
        = JStr (concat (map (render print_value ctx) segs))"
    by (cases segs rule: single_expression.cases)
       (simp_all add: resolve_def split: segment.splits)
next
  assume "\<not> single_expression (parse_template t)"
  then show "resolve print_value ctx t
        = JStr (concat (map (render print_value ctx) (parse_template t)))"
    by (cases "parse_template t" rule: single_expression.cases)
       (simp_all add: resolve_def split: segment.splits)
qed

theorem resolve_types_witness:
  "resolve example_print example_context ''{{contact.vip}}'' = JBool True \<and>
   resolve example_print example_context ''{{greeting}}, {{contact.id}}! vip={{contact.vip}}''
     = JStr ''Hello, c-42! vip=true'' \<and>
   resolve example_print example_context ''{id: {{contact.id}}}'' = JStr ''{id: c-42}''"
proof -
  let ?segs = "[Expression ''greeting'', Literal '', '', Expression ''contact.id'',
    Literal ''! vip='', Expression ''contact.vip'']"
  let ?t = "''{id: {{contact.id}}}''"
  have p: "CHR ''}'' \<notin> set ''contact.vip''" by simp
  have segs: "plain_segments ?segs \<and> \<not> single_expression ?segs" by simp
  have tmpl: "template_text ?segs = ''{{greeting}}, {{contact.id}}! vip={{contact.vip}}''"
    by (simp add: template_text_def)
  have parse: "parse_template ?t = [Literal ''{id: '', Expression ''contact.id'', Literal ''}'']"
    by code_simp
  then have several: "\<not> single_expression (parse_template ?t)" by simp
  have look: "lookup_path example_context ''contact.vip'' = JBool True"
    "lookup_path example_context ''contact.id'' = JStr ''c-42''"
    "lookup_path example_context ''greeting'' = JStr ''Hello''"
    by (simp_all add: lookup_path_def example_context_def)
  from resolve_types [of "''contact.vip''" example_print example_context ?segs ?t] p segs several
  have "resolve example_print example_context (''{{'' @ ''contact.vip'' @ ''}}'')
      = lookup_path example_context ''contact.vip''"
    and "resolve example_print example_context (template_text ?segs)
      = JStr (concat (map (render example_print example_context) ?segs))"
    and "resolve example_print example_context ?t
      = JStr (concat (map (render example_print example_context) (parse_template ?t)))"
    by blast+
  then show ?thesis
    unfolding tmpl parse by (simp add: look interpolate_def example_print_def)
qed

section \<open>Validation of the dependencies\<close>

lemma depends_iff: "(i, d) \<in> depends acts \<longleftrightarrow> d \<in> set (deps_of acts i)"
  by (simp add: depends_def)

lemma deps_of_id: "d \<in> set (deps_of acts i) \<Longrightarrow> i \<in> set (map action_id acts)"
  by (auto simp: deps_of_def)

lemma deps_of_member:
  "a \<in> set acts \<Longrightarrow> d \<in> set (dependsOn a) \<Longrightarrow> d \<in> set (deps_of acts (action_id a))"
  by (auto simp: deps_of_def)

lemma leads_to_cycle_step:
  assumes "leads_to_cycle acts i"
  shows "\<exists>d \<in> set (deps_of acts i). leads_to_cycle acts d"
proof -
  from assms obtain c where ic: "(i, c) \<in> (depends acts)\<^sup>*" and cc: "(c, c) \<in> (depends acts)\<^sup>+"
    by (auto simp: leads_to_cycle_def)
  from ic cc have "(i, c) \<in> (depends acts)\<^sup>+"
    by (metis rtranclD)
  then obtain d where id: "(i, d) \<in> depends acts" and dc: "(d, c) \<in> (depends acts)\<^sup>*"
    by (meson tranclD)
  from dc cc have "leads_to_cycle acts d" by (auto simp: leads_to_cycle_def)
  with id show ?thesis by (auto simp: depends_iff)
qed

lemma find_cycle_among_found:
  "i \<in> set cands \<Longrightarrow> find_cycle_from acts depth path i \<noteq> None \<Longrightarrow>
   find_cycle_among acts depth path cands \<noteq> None"
  by (induction cands) (auto split: option.splits)

lemma find_cycle_from_complete:
  "leads_to_cycle acts i \<Longrightarrow> set path \<subseteq> set (map action_id acts) \<Longrightarrow>
   card (set (map action_id acts) - set path) \<le> depth \<Longrightarrow>
   find_cycle_from acts depth path i \<noteq> None"
proof (induction depth arbitrary: path i)
  case 0
  from leads_to_cycle_step [OF 0(1)] have "i \<in> set (map action_id acts)"
    using deps_of_id by blast
  with 0(3) have "i \<in> set path" by auto
  then show ?case by simp
next
  case (Suc depth)
  show ?case
  proof (cases "i \<in> set path")
    case True
    then show ?thesis by simp
  next
    case False
    from leads_to_cycle_step [OF Suc.prems(1)]
    obtain d where d: "d \<in> set (deps_of acts i)" and bad: "leads_to_cycle acts d" by blast
    from d have i: "i \<in> set (map action_id acts)" by (rule deps_of_id)
    have sub: "set (i # path) \<subseteq> set (map action_id acts)"
      using i Suc.prems(2) by simp
    have "set (map action_id acts) - set (i # path)
        = (set (map action_id acts) - set path) - {i}" by auto
    moreover have "i \<in> set (map action_id acts) - set path" using i False by simp
    ultimately have "card (set (map action_id acts) - set (i # path))
        = card (set (map action_id acts) - set path) - 1"
      by (simp add: card_Diff_singleton)
    moreover have "0 < card (set (map action_id acts) - set path)"
      using i False by (auto simp: card_gt_0_iff)
    ultimately have "card (set (map action_id acts) - set (i # path)) \<le> depth"
      using Suc.prems(3) by linarith
    from Suc.IH [OF bad sub this]
    have "find_cycle_from acts depth (i # path) d \<noteq> None" .
    with d have "find_cycle_among acts depth (i # path) (deps_of acts i) \<noteq> None"
      by (rule find_cycle_among_found)
    with False show ?thesis by simp
  qed
qed

lemma takeWhile_tail:
  "i \<notin> set front \<Longrightarrow> takeWhile (\<lambda>j. j \<noteq> i) (front @ i # rest) = front"
  by (induction front) auto

lemma linked_suffix: "linked acts (xs @ ys) \<Longrightarrow> linked acts ys"
proof (induction xs)
  case Nil
  then show ?case by simp
next
  case (Cons x xs)
  then show ?case by (cases "xs @ ys") auto
qed

lemma linked_snoc:
  "linked acts (xs @ [i]) \<Longrightarrow> d \<in> set (deps_of acts i) \<Longrightarrow> linked acts (xs @ [i, d])"
proof (induction xs)
  case Nil
  then show ?case by simp
next
  case (Cons x xs)
  then show ?case by (cases xs) auto
qed

lemma find_cycle_sound:
  "find_cycle_from acts depth path i = Some c \<Longrightarrow> linked acts (rev path @ [i]) \<Longrightarrow>
     is_cycle acts c"
  "find_cycle_among acts depth path cands = Some c \<Longrightarrow>
     list_all (\<lambda>j. linked acts (rev path @ [j])) cands \<Longrightarrow> is_cycle acts c"
proof (induction acts depth path i and acts depth path cands
    rule: find_cycle_from_find_cycle_among.induct)
  case (1 acts depth path i)
  note res = "1.prems"(1) and lk = "1.prems"(2)
  show ?case
  proof (cases "i \<in> set path")
    case True
    with res have c: "c = i # rev (takeWhile (\<lambda>j. j \<noteq> i) path)" by simp
    from True obtain front rest where path: "path = front @ i # rest" and "i \<notin> set front"
      by (meson split_list_first)
    then have tw: "takeWhile (\<lambda>j. j \<noteq> i) path = front"
      by (simp add: takeWhile_tail)
    have "rev path @ [i] = rev rest @ (i # rev front @ [i])"
      by (subst path) simp
    with lk have "linked acts (i # rev front @ [i])"
      using linked_suffix by metis
    then show ?thesis by (simp add: is_cycle_def c tw)
  next
    case False
    with res obtain depth' where depth: "depth = Suc depth'"
      and among: "find_cycle_among acts depth' (i # path) (deps_of acts i) = Some c"
      by (auto split: nat.splits)
    have "list_all (\<lambda>j. linked acts (rev (i # path) @ [j])) (deps_of acts i)"
      using linked_snoc [OF lk] by (simp add: list_all_iff)
    with "1.IH" [OF False depth among] show ?thesis .
  qed
next
  case (2 acts depth path)
  then show ?case by simp
next
  case (3 acts depth path i rest)
  note res = "3.prems"(1) and lk = "3.prems"(2)
  show ?case
  proof (cases "find_cycle_from acts depth path i")
    case None
    with res have "find_cycle_among acts depth path rest = Some c" by simp
    with "3.IH"(2) [OF None] lk show ?thesis by simp
  next
    case (Some c')
    with res have "c' = c" by simp
    with Some "3.IH"(1) lk show ?thesis by simp
  qed
qed

lemma linked_trancl:
  "linked acts (x # xs @ [y]) \<Longrightarrow> (x, y) \<in> (depends acts)\<^sup>+"
proof (induction xs arbitrary: x)
  case Nil
  then show ?case by (auto simp: depends_iff)
next
  case (Cons z zs)
  then have "(x, z) \<in> depends acts" and "linked acts (z # zs @ [y])"
    by (auto simp: depends_iff)
  with Cons.IH show ?case by (meson trancl_into_trancl2)
qed

lemma is_cycle_cyclic: "is_cycle acts c \<Longrightarrow> cyclic acts"
proof -
  assume "is_cycle acts c"
  then obtain x xs where "c = x # xs" and "linked acts (x # xs @ [x])"
    by (cases c) (auto simp: is_cycle_def)
  then have "(x, x) \<in> (depends acts)\<^sup>+" using linked_trancl by blast
  then show ?thesis by (auto simp: cyclic_def)
qed

lemma find_cycle_complete:
  assumes "cyclic acts"
  shows "\<exists>c. find_cycle acts = Some c \<and> is_cycle acts c"
proof -
  from assms obtain i where ii: "(i, i) \<in> (depends acts)\<^sup>+" by (auto simp: cyclic_def)
  then have bad: "leads_to_cycle acts i" by (auto simp: leads_to_cycle_def)
  from leads_to_cycle_step [OF bad] have i: "i \<in> set (map action_id acts)"
    using deps_of_id by blast
  have "card (set (map action_id acts) - set []) \<le> length acts"
    using card_length [of "map action_id acts"] by simp
  with bad have "find_cycle_from acts (length acts) [] i \<noteq> None"
    by (intro find_cycle_from_complete) simp_all
  with i have "find_cycle_among acts (length acts) [] (map action_id acts) \<noteq> None"
    by (rule find_cycle_among_found)
  then obtain c where c: "find_cycle acts = Some c" by (auto simp: find_cycle_def)
  then have "find_cycle_among acts (length acts) [] (map action_id acts) = Some c"
    by (simp add: find_cycle_def)
  moreover have "list_all (\<lambda>j. linked acts (rev [] @ [j])) (map action_id acts)"
    by (simp add: list_all_iff)
  ultimately have "is_cycle acts c" by (rule find_cycle_sound(2))
  with c show ?thesis by blast
qed

lemma validate_Inl: "e \<in> set (validation_errors m) \<Longrightarrow> validate m = Inl (validation_errors m)"
  by (auto simp: validate_def)

lemma execute_Inl: "e \<in> set (validation_errors m) \<Longrightarrow> execute ex m ctx = Inl (validation_errors m)"
  by (simp add: execute_def validate_Inl)

text \<open>
  C3. For every manifest whose \<open>dependsOn\<close> graph contains a cycle, the accumulated
  validation errors contain a \<open>CyclicDependency\<close> error that names a cycle of the graph;
  \<open>validate\<close> returns the errors, and \<open>execute\<close> returns them without running anything.
  Every \<open>dependsOn\<close> entry that references no action id of the manifest is among the
  errors as well, and the manifest is rejected in the same way.
\<close>

theorem validate_rejects_cycles:
  "(cyclic (actions m) \<longrightarrow>
      (\<exists>c. is_cycle (actions m) c \<and> CyclicDependency c \<in> set (validation_errors m)) \<and>
      validate m = Inl (validation_errors m) \<and>
      execute ex m ctx = Inl (validation_errors m)) \<and>
   (a \<in> set (actions m) \<and> d \<in> set (dependsOn a) \<and> d \<notin> set (map action_id (actions m)) \<longrightarrow>
      DanglingDependency (action_id a) d \<in> set (validation_errors m) \<and>
      validate m = Inl (validation_errors m) \<and>
      execute ex m ctx = Inl (validation_errors m))"
proof (intro conjI impI)
  assume "cyclic (actions m)"
  then obtain c where found: "find_cycle (actions m) = Some c" and cyc: "is_cycle (actions m) c"
    using find_cycle_complete by blast
  from found have err: "CyclicDependency c \<in> set (validation_errors m)"
    by (simp add: validation_errors_def cycle_errors_def)
  with cyc show "\<exists>c. is_cycle (actions m) c \<and> CyclicDependency c \<in> set (validation_errors m)"
    by blast
  from err show "validate m = Inl (validation_errors m)" by (rule validate_Inl)
  from err show "execute ex m ctx = Inl (validation_errors m)" by (rule execute_Inl)
next
  assume "a \<in> set (actions m) \<and> d \<in> set (dependsOn a) \<and> d \<notin> set (map action_id (actions m))"
  then have "DanglingDependency (action_id a) d \<in> set (dangling_errors (actions m))"
    by (auto simp: dangling_errors_def)
  then show err: "DanglingDependency (action_id a) d \<in> set (validation_errors m)"
    by (simp add: validation_errors_def)
  from err show "validate m = Inl (validation_errors m)" by (rule validate_Inl)
  from err show "execute ex m ctx = Inl (validation_errors m)" by (rule execute_Inl)
qed

theorem validate_rejects_cycles_witness:
  "(\<exists>c. is_cycle (actions example_cyclic) c \<and>
        CyclicDependency c \<in> set (validation_errors example_cyclic)) \<and>
   DanglingDependency ''b'' ''zz'' \<in> set (validation_errors example_cyclic) \<and>
   execute example_externals example_cyclic example_context
     = Inl (validation_errors example_cyclic)"
proof -
  have acts: "actions example_cyclic =
      [action ''a'' [''b''] None, action ''b'' [''c'', ''zz''] None, action ''c'' [''b''] None]"
    by (simp add: example_cyclic_def example_manifest_def)
  have "is_cycle (actions example_cyclic) [''b'', ''c'']"
    by (simp add: acts is_cycle_def deps_of_def action_def)
  then have cyc: "cyclic (actions example_cyclic)" by (rule is_cycle_cyclic)
  have dangling: "action ''b'' [''c'', ''zz''] None \<in> set (actions example_cyclic) \<and>
      ''zz'' \<in> set (dependsOn (action ''b'' [''c'', ''zz''] None)) \<and>
      ''zz'' \<notin> set (map action_id (actions example_cyclic))"
    by (simp add: acts action_def)
  have b: "action_id (action ''b'' [''c'', ''zz''] None) = ''b''" by (simp add: action_def)
  from validate_rejects_cycles [of example_cyclic example_externals example_context
      "action ''b'' [''c'', ''zz''] None" "''zz''"] cyc dangling
  show ?thesis unfolding b by blast
qed

section \<open>The scheduler and the engine\<close>

lemma events_dispatch:
  "events (dispatch ex a st) = events st @ [new_event ex a st]"
  by (simp add: new_event_def dispatch_def skip_def Let_def)

lemma new_event_spec: "ev_spec (new_event ex a st) = a"
  by (simp add: new_event_def dispatch_def skip_def Let_def)

lemma new_event_context: "ev_context (new_event ex a st) = run_context st"
  by (simp add: new_event_def dispatch_def skip_def Let_def)

lemma dispatch_binds:
  "ev_result (new_event ex a st) = Some r \<Longrightarrow> outputTo a = Some x \<Longrightarrow>
   map_of (variables (run_context (dispatch ex a st))) x = Some (data r)"
  by (auto simp: new_event_def dispatch_def skip_def Let_def update_conv' split: if_splits)

lemma dispatch_keeps:
  "outputTo a \<noteq> Some x \<Longrightarrow>
   map_of (variables (run_context (dispatch ex a st))) x = map_of (variables (run_context st)) x"
  by (auto simp: dispatch_def skip_def Let_def update_conv' split: if_splits option.splits)

lemma run_actions_Nil: "run_actions ex [] st = st"
  by (simp add: run_actions_def)

lemma run_actions_Cons: "run_actions ex (a # order) st = run_actions ex order (dispatch ex a st)"
  by (simp add: run_actions_def)

lemma run_actions_append:
  "run_actions ex (xs @ ys) st = run_actions ex ys (run_actions ex xs st)"
  by (simp add: run_actions_def)

lemma run_actions_keeps:
  "list_all (\<lambda>c. outputTo c \<noteq> Some x) mid \<Longrightarrow>
   map_of (variables (run_context (run_actions ex mid st))) x
     = map_of (variables (run_context st)) x"
  by (induction mid arbitrary: st) (simp_all add: run_actions_Nil run_actions_Cons dispatch_keeps)

lemma events_run_actions:
  "events (run_actions ex order st)
     = events st @ map (\<lambda>j. new_event ex (order ! j) (run_actions ex (take j order) st))
                     [0..<length order]"
proof (induction order rule: rev_induct)
  case Nil
  show ?case by (simp add: run_actions_Nil)
next
  case (snoc a order)
  have "events (run_actions ex (order @ [a]) st)
      = events (run_actions ex order st) @ [new_event ex a (run_actions ex order st)]"
    by (simp add: run_actions_append run_actions_Cons run_actions_Nil events_dispatch)
  also have "\<dots> = events st @
      map (\<lambda>j. new_event ex (order ! j) (run_actions ex (take j order) st)) [0..<length order]
      @ [new_event ex a (run_actions ex order st)]"
    by (simp add: snoc.IH)
  also have "map (\<lambda>j. new_event ex (order ! j) (run_actions ex (take j order) st)) [0..<length order]
      = map (\<lambda>j. new_event ex ((order @ [a]) ! j) (run_actions ex (take j (order @ [a])) st))
          [0..<length order]"
    by (simp add: nth_append)
  finally show ?case by simp
qed

lemma nth_events_run:
  assumes "j < length (schedule acts)"
  shows "events (run ex acts ctx) ! j
      = new_event ex (schedule acts ! j)
          (run_actions ex (take j (schedule acts)) (initial_state ctx))"
  using assms by (simp add: run_def events_run_actions initial_state_def)

lemma pick_ready_Some:
  "pick_ready scheduled pending = Some (a, rest) \<Longrightarrow>
   ready scheduled a \<and> a \<in> set pending \<and> set rest \<subseteq> set pending"
  by (induction pending arbitrary: rest) (auto split: if_splits)

declare schedule_from.simps [simp del]

lemma schedule_from_subset: "set (schedule_from scheduled pending) \<subseteq> set pending"
proof (induction scheduled pending rule: schedule_from.induct)
  case (1 scheduled pending)
  show ?case
  proof (cases "pick_ready scheduled pending")
    case None
    then show ?thesis by (subst schedule_from.simps) simp
  next
    case (Some p)
    obtain a rest where p: "p = (a, rest)" by (cases p)
    from Some p have pr: "pick_ready scheduled pending = Some (a, rest)" by simp
    from "1.IH" [OF pr refl] have "set (schedule_from (action_id a # scheduled) rest) \<subseteq> set rest" .
    with pick_ready_Some [OF pr] show ?thesis
      by (subst schedule_from.simps) (auto simp: pr)
  qed
qed

lemma schedule_from_deps:
  "schedule_from scheduled pending = pre @ b # post \<Longrightarrow> d \<in> set (dependsOn b) \<Longrightarrow>
   d \<in> set scheduled \<union> set (map action_id pre)"
proof (induction scheduled pending arbitrary: pre rule: schedule_from.induct)
  case (1 scheduled pending)
  show ?case
  proof (cases "pick_ready scheduled pending")
    case None
    with "1.prems"(1) show ?thesis by (subst (asm) schedule_from.simps) simp
  next
    case (Some p)
    obtain a rest where p: "p = (a, rest)" by (cases p)
    from Some p have pr: "pick_ready scheduled pending = Some (a, rest)" by simp
    from "1.prems"(1) have eq: "a # schedule_from (action_id a # scheduled) rest = pre @ b # post"
      by (subst (asm) schedule_from.simps) (simp add: pr)
    show ?thesis
    proof (cases pre)
      case Nil
      with eq have "b = a" by simp
      with pick_ready_Some [OF pr] "1.prems"(2) show ?thesis
        by (auto simp: ready_def list_all_iff)
    next
      case (Cons a' pre')
      with eq have a': "a' = a" and rest: "schedule_from (action_id a # scheduled) rest = pre' @ b # post"
        by auto
      from "1.IH" [OF pr refl rest "1.prems"(2)]
      show ?thesis by (auto simp: Cons a')
    qed
  qed
qed

lemma same_id_same_action:
  "distinct (map action_id acts) \<Longrightarrow> a \<in> set acts \<Longrightarrow> a' \<in> set acts \<Longrightarrow>
   action_id a' = action_id a \<Longrightarrow> a' = a"
  by (meson distinct_map inj_on_def)

text \<open>
  The heart of the matter, for any scheduled action: in the timeline a dependency comes
  before its dependent, and what it bound is still bound when the dependent is
  dispatched unless an action in between bound the same variable.
\<close>

lemma dependent_observes_output_scheduled:
  assumes "distinct (map action_id acts)" and "A \<in> set acts" and "outputTo A = Some x"
    and "B \<in> set (schedule acts)" and "action_id A \<in> set (dependsOn B)"
  shows "\<exists>pre mid post.
           schedule acts = pre @ A # mid @ B # post \<and>
           ev_spec (events (run ex acts ctx) ! length pre) = A \<and>
           ev_spec (events (run ex acts ctx) ! Suc (length pre + length mid)) = B \<and>
           (\<forall>r. ev_result (events (run ex acts ctx) ! length pre) = Some r \<and>
                 list_all (\<lambda>c. outputTo c \<noteq> Some x) mid \<longrightarrow>
                 map_of (variables (ev_context (events (run ex acts ctx)
                   ! Suc (length pre + length mid)))) x = Some (data r))"
proof -
  from assms(4) obtain pre0 post where order: "schedule acts = pre0 @ B # post"
    by (meson split_list)
  then have "schedule_from [] acts = pre0 @ B # post" by (simp add: schedule_def)
  from schedule_from_deps [OF this assms(5)]
  obtain A' where A': "A' \<in> set pre0" "action_id A' = action_id A" by auto
  have "set (schedule acts) \<subseteq> set acts"
    by (simp add: schedule_def schedule_from_subset)
  with order A'(1) have "A' \<in> set acts" by auto
  with same_id_same_action [OF assms(1,2) _ A'(2)] have "A' = A" by simp
  with A'(1) obtain pre mid where pre0: "pre0 = pre @ A # mid" by (meson split_list)
  with order have split: "schedule acts = pre @ A # mid @ B # post" by simp
  let ?s1 = "run_actions ex pre (initial_state ctx)"
  let ?s2 = "dispatch ex A ?s1"
  let ?s3 = "run_actions ex mid ?s2"
  let ?i = "length pre" and ?j = "Suc (length pre + length mid)"
  have i: "?i < length (schedule acts)" and j: "?j < length (schedule acts)"
    by (simp_all add: split)
  have ti: "take ?i (schedule acts) = pre" by (simp add: split)
  have tj: "take ?j (schedule acts) = pre @ A # mid" by (simp add: split)
  have ni: "schedule acts ! ?i = A" by (simp add: split)
  have nj: "schedule acts ! ?j = B"
    using nth_append_length [of "pre @ A # mid" B post] by (simp add: split)
  have eA: "events (run ex acts ctx) ! ?i = new_event ex A ?s1"
    using nth_events_run [OF i, of ex ctx] by (simp only: ti ni)
  have "run_actions ex (pre @ A # mid) (initial_state ctx) = ?s3"
    by (simp add: run_actions_append run_actions_Cons)
  then have eB: "events (run ex acts ctx) ! ?j = new_event ex B ?s3"
    using nth_events_run [OF j, of ex ctx] by (simp only: tj nj)
  have "\<forall>r. ev_result (events (run ex acts ctx) ! ?i) = Some r \<and>
           list_all (\<lambda>c. outputTo c \<noteq> Some x) mid \<longrightarrow>
           map_of (variables (ev_context (events (run ex acts ctx) ! ?j))) x = Some (data r)"
  proof (intro allI impI)
    fix r
    assume h: "ev_result (events (run ex acts ctx) ! ?i) = Some r \<and>
        list_all (\<lambda>c. outputTo c \<noteq> Some x) mid"
    then have "ev_result (new_event ex A ?s1) = Some r" by (simp add: eA)
    from dispatch_binds [OF this assms(3)]
    have "map_of (variables (run_context ?s2)) x = Some (data r)" .
    moreover from h have "map_of (variables (run_context ?s3)) x
        = map_of (variables (run_context ?s2)) x"
      by (intro run_actions_keeps) simp
    ultimately show "map_of (variables (ev_context (events (run ex acts ctx) ! ?j))) x
        = Some (data r)"
      by (simp add: eB new_event_context)
  qed
  with split eA eB show ?thesis
    by (intro exI [of _ pre] exI [of _ mid] exI [of _ post]) (simp add: new_event_spec)
qed


lemma pick_ready_None:
  "pick_ready scheduled pending = None \<Longrightarrow> a \<in> set pending \<Longrightarrow> \<not> ready scheduled a"
  by (induction pending) (auto split: if_splits)

lemma pick_ready_set:
  "pick_ready scheduled pending = Some (a, rest) \<Longrightarrow> set pending = insert a (set rest)"
  by (induction pending arbitrary: rest) (auto split: if_splits)

lemma finite_depends: "finite (depends acts)"
proof -
  have "depends acts \<subseteq> set (map action_id acts) \<times> set (concat (map dependsOn acts))"
    by (auto simp: depends_def deps_of_def)
  then show ?thesis by (rule finite_subset) simp
qed

lemma some_action_ready:
  assumes acyc: "\<not> cyclic acts" and sub: "set pending \<subseteq> set acts" and ne: "pending \<noteq> []"
    and known: "\<And>a d. a \<in> set pending \<Longrightarrow> d \<in> set (dependsOn a) \<Longrightarrow>
        d \<in> set scheduled \<union> action_id ` set pending"
  shows "\<exists>a \<in> set pending. ready scheduled a"
proof -
  from acyc have "acyclic (depends acts)" by (simp add: cyclic_def acyclic_def)
  with finite_depends have wf: "wf ((depends acts)\<inverse>)" by (rule finite_acyclic_wf_converse)
  from ne obtain a0 where "a0 \<in> set pending" by (cases pending) auto
  then have "action_id a0 \<in> action_id ` set pending" by simp
  from wfE_min [OF wf this] obtain z where z: "z \<in> action_id ` set pending"
    and least: "\<And>y. (y, z) \<in> (depends acts)\<inverse> \<Longrightarrow> y \<notin> action_id ` set pending"
    by metis
  from z obtain a where a: "a \<in> set pending" and za: "z = action_id a" by auto
  have "ready scheduled a"
    unfolding ready_def list_all_iff
  proof
    fix d
    assume d: "d \<in> set (dependsOn a)"
    from a sub have "a \<in> set acts" by blast
    from deps_of_member [OF this d] have "(z, d) \<in> depends acts"
      by (simp add: depends_iff za)
    with least have "d \<notin> action_id ` set pending" by blast
    with known [OF a d] show "d \<in> set scheduled" by blast
  qed
  with a show ?thesis by blast
qed

lemma schedule_from_complete:
  assumes acyc: "\<not> cyclic acts"
  shows "set pending \<subseteq> set acts \<Longrightarrow>
    (\<forall>a \<in> set pending. \<forall>d \<in> set (dependsOn a).
        d \<in> set scheduled \<union> action_id ` set pending) \<Longrightarrow>
    set (schedule_from scheduled pending) = set pending"
proof (induction scheduled pending rule: schedule_from.induct)
  case (1 scheduled pending)
  note sub = "1.prems"(1) and known = "1.prems"(2)
  show ?case
  proof (cases "pick_ready scheduled pending")
    case None
    have "pending = []"
    proof (rule ccontr)
      assume ne: "pending \<noteq> []"
      have "\<exists>a \<in> set pending. ready scheduled a"
        using acyc sub ne
      proof (rule some_action_ready)
        fix a d
        assume "a \<in> set pending" and "d \<in> set (dependsOn a)"
        with known show "d \<in> set scheduled \<union> action_id ` set pending" by blast
      qed
      then obtain a where "a \<in> set pending" and "ready scheduled a" by blast
      with pick_ready_None [OF None] show False by blast
    qed
    then show ?thesis by (subst schedule_from.simps) simp
  next
    case (Some p)
    obtain a rest where p: "p = (a, rest)" by (cases p)
    from Some p have pr: "pick_ready scheduled pending = Some (a, rest)" by simp
    note split = pick_ready_set [OF pr]
    have sub': "set rest \<subseteq> set acts" using sub split by blast
    have known': "\<forall>b \<in> set rest. \<forall>d \<in> set (dependsOn b).
        d \<in> set (action_id a # scheduled) \<union> action_id ` set rest"
    proof (intro ballI)
      fix b d
      assume b: "b \<in> set rest" and d: "d \<in> set (dependsOn b)"
      from b split have "b \<in> set pending" by blast
      with known d have "d \<in> set scheduled \<union> action_id ` set pending" by blast
      then show "d \<in> set (action_id a # scheduled) \<union> action_id ` set rest"
        unfolding split by auto
    qed
    from "1.IH" [OF pr refl sub' known']
    have IH: "set (schedule_from (action_id a # scheduled) rest) = set rest" .
    have "schedule_from scheduled pending = a # schedule_from (action_id a # scheduled) rest"
      by (subst schedule_from.simps) (simp add: pr)
    then show ?thesis by (simp add: IH split)
  qed
qed

lemma dangling_errors_Nil:
  "dangling_errors acts = [] \<Longrightarrow> a \<in> set acts \<Longrightarrow> d \<in> set (dependsOn a) \<Longrightarrow>
   d \<in> action_id ` set acts"
  by (auto simp: dangling_errors_def filter_empty_conv)

lemma valid_schedules_all:
  assumes "validation_errors m = []"
  shows "set (schedule (actions m)) = set (actions m)"
proof -
  from assms have dangling: "dangling_errors (actions m) = []"
    and cyc: "cycle_errors (actions m) = []"
    by (simp_all add: validation_errors_def)
  have "\<not> cyclic (actions m)"
  proof
    assume "cyclic (actions m)"
    then obtain c where "find_cycle (actions m) = Some c" using find_cycle_complete by blast
    with cyc show False by (simp add: cycle_errors_def)
  qed
  then show ?thesis
    unfolding schedule_def
  proof (rule schedule_from_complete)
    show "set (actions m) \<subseteq> set (actions m)" by simp
  next
    show "\<forall>a \<in> set (actions m). \<forall>d \<in> set (dependsOn a).
        d \<in> set [] \<union> action_id ` set (actions m)"
      using dangling_errors_Nil [OF dangling] by simp
  qed
qed

text \<open>
  C6 (as the model has it). In every run of the engine over a manifest whose action ids
  are distinct, for every action \<open>A\<close> with \<open>outputTo = x\<close> and every action \<open>B\<close> that names
  \<open>A\<close> in its \<open>dependsOn\<close>: \<open>A\<close> comes before \<open>B\<close> in the schedule and in the timeline,
  and if \<open>A\<close>'s handler was invoked and no action scheduled between the two binds the
  same variable, then the context \<open>B\<close> is dispatched in has \<open>variables.x\<close> equal to the
  data of \<open>A\<close>'s handler result.
\<close>

theorem dependent_observes_output:
  assumes "execute ex m ctx = Inr st"
    and "distinct (map action_id (actions m))"
    and "A \<in> set (actions m)" and "outputTo A = Some x"
    and "B \<in> set (actions m)" and "action_id A \<in> set (dependsOn B)"
  shows "\<exists>pre mid post.
           schedule (actions m) = pre @ A # mid @ B # post \<and>
           ev_spec (events st ! length pre) = A \<and>
           ev_spec (events st ! Suc (length pre + length mid)) = B \<and>
           (\<forall>r. ev_result (events st ! length pre) = Some r \<and>
                 list_all (\<lambda>c. outputTo c \<noteq> Some x) mid \<longrightarrow>
                 map_of (variables (ev_context (events st ! Suc (length pre + length mid)))) x
                   = Some (data r))"
proof -
  from assms(1) have valid: "validation_errors m = []" and st: "st = run ex (actions m) ctx"
    by (auto simp: execute_def validate_def split: if_splits)
  from valid_schedules_all [OF valid] assms(5) have "B \<in> set (schedule (actions m))" by simp
  from dependent_observes_output_scheduled [OF assms(2,3,4) this assms(6), of ex ctx]
  show ?thesis unfolding st .
qed

lemma schedule_example_overwrite: "schedule example_overwrite = example_overwrite"
  by code_simp

lemma schedule_example_pipeline:
  "schedule example_pipeline
     = [action ''a'' [] (Some ''x''), action ''b'' [''a''] None, action ''c'' [] None]"
  by code_simp

text \<open>
  Without the condition on the actions in between, the claim fails: here \<open>a\<close> binds
  \<open>x\<close>, then \<open>c\<close> binds \<open>x\<close> again, and \<open>b\<close>, which depends on \<open>a\<close> only, observes the
  data of \<open>c\<close>.
\<close>

theorem dependent_overwritten_counterexample:
  "action_id (ev_spec (events (run example_externals example_overwrite example_context) ! 0)) = ''a'' \<and>
   ev_status (events (run example_externals example_overwrite example_context) ! 0) = Completed \<and>
   map_option data (ev_result (events (run example_externals example_overwrite example_context) ! 0))
     = Some (JStr ''a'') \<and>
   action_id (ev_spec (events (run example_externals example_overwrite example_context) ! 2)) = ''b'' \<and>
   ev_status (events (run example_externals example_overwrite example_context) ! 2) = Completed \<and>
   map_of (variables (ev_context (events (run example_externals example_overwrite example_context) ! 2)))
     ''x'' = Some (JStr ''c'')"
  by code_simp


theorem dependent_observes_output_witness:
  "ev_spec (events (run example_externals example_pipeline example_context) ! 0)
     = action ''a'' [] (Some ''x'') \<and>
   ev_spec (events (run example_externals example_pipeline example_context) ! 1)
     = action ''b'' [''a''] None \<and>
   map_of (variables (ev_context (events (run example_externals example_pipeline example_context) ! 1)))
     ''x'' = Some (JStr ''a'')"
proof -
  let ?A = "action ''a'' [] (Some ''x'')" and ?B = "action ''b'' [''a''] None"
  let ?m = "example_manifest example_pipeline"
  let ?evs = "events (run example_externals example_pipeline example_context)"
  have acts: "actions ?m = example_pipeline" by (simp add: example_manifest_def)
  have valid: "validation_errors ?m = []" by code_simp
  then have exec: "execute example_externals ?m example_context
      = Inr (run example_externals example_pipeline example_context)"
    by (simp add: execute_def validate_def acts)
  have d: "distinct (map action_id (actions ?m))"
    and a: "?A \<in> set (actions ?m)"
    and o: "outputTo ?A = Some ''x''"
    and b: "?B \<in> set (actions ?m)"
    and dep: "action_id ?A \<in> set (dependsOn ?B)"
    by (simp_all add: example_manifest_def example_pipeline_def action_def)
  from dependent_observes_output [OF exec d a o b dep]
  obtain pre mid post where
    order: "schedule (actions ?m) = pre @ ?A # mid @ ?B # post"
    and eA: "ev_spec (?evs ! length pre) = ?A"
    and eB: "ev_spec (?evs ! Suc (length pre + length mid)) = ?B"
    and obs: "\<And>r. ev_result (?evs ! length pre) = Some r \<Longrightarrow>
        list_all (\<lambda>c. outputTo c \<noteq> Some ''x'') mid \<Longrightarrow>
        map_of (variables (ev_context (?evs ! Suc (length pre + length mid)))) ''x''
          = Some (data r)"
    by blast
  from order have "pre = [] \<and> mid = []"
    by (auto simp: acts schedule_example_pipeline Cons_eq_append_conv action_def)
  then have pre: "pre = []" and mid: "mid = []" by simp_all
  have res: "ev_result (?evs ! 0)
      = Some \<lparr>success = True, data = JStr ''a'', error = JUndefined\<rparr>"
    by code_simp
  from obs [of "\<lparr>success = True, data = JStr ''a'', error = JUndefined\<rparr>"] res eA eB
  show ?thesis by (simp add: pre mid)
qed

end
